theory Spec2Isabelle
  imports Complex_Main "HOL-Library.Multiset"
begin

section \<open>The cartesian cut partitioner of DistributedGraph_CartesianCut.h\<close>

text \<open>
  The class \<open>DistGraphCartesianCut\<close> is embedded as a record of its members (and of the
  members of \<open>DistGraph\<close> it reads), its template parameters included. C++ \<open>unsigned\<close>,
  \<open>uint32_t\<close> and \<open>uint64_t\<close> values are natural numbers; where a 32-bit result can wrap
  the reduction \<open>mod 2 ^ 32\<close> is written out. \<open>assert\<close> is compiled out when \<open>NDEBUG\<close>
  is defined: the field \<open>ndebug\<close> records the build, and a failing assertion of a
  debug build is the error \<open>AssertionFailure\<close>. An unchecked access beyond a vector is
  \<open>OutOfRange\<close>, a failing \<open>unordered_map::at\<close> is \<open>KeyNotFound\<close>, a receive loop that
  waits for a message nobody sends is \<open>NoMessage\<close>, and a loop whose 32-bit counter can
  never reach its bound is \<open>NoReturn\<close>. The parallel loops \<open>do_all\<close> work on one node at a
  time and are run in ascending order; timers and printed statistics are left out, and
  the field \<open>warnings\<close> counts the calls of \<open>gWarn\<close>. The field \<open>strayBits\<close> is no member of
  the class: it is the memory that a \<open>test\<close> beyond the size of a bitset reads.
\<close>

datatype error =
  AssertionFailure | OutOfRange | KeyNotFound | DivisionByZero | NoMessage | NoReturn

datatype SyncType = syncReduce | syncBroadcast
datatype WriteLocation = writeSource | writeDestination | writeAny
datatype ReadLocation = readSource | readDestination | readAny

record DistGraph =
  columnBlocked :: bool
  moreColumnHosts :: bool
  DecomposeFactor :: nat
  ndebug :: bool
  hostID :: nat
  numHosts :: nat
  numGlobalNodes :: nat
  gid2host :: "(nat \<times> nat) list"
  transposed :: bool
  numRowHosts :: nat
  numColumnHosts :: nat
  numVirtualHosts :: nat
  dummyOutgoingNodes :: nat
  localToGlobalVector :: "nat list"
  globalToLocalMap :: "nat \<rightharpoonup> nat"
  numNodes :: nat
  numEdges :: nat
  numOwned :: nat
  beginMaster :: nat
  numNodesWithEdges :: nat
  mirrorNodes :: "nat list list"
  masterNodes :: "nat list list"
  warnings :: nat
  strayBits :: "nat \<Rightarrow> bool"

subsection \<open>factorizeHosts\<close>

text \<open>
  \<open>numColumnHosts = sqrt(numHosts)\<close> converts the double-precision root to \<open>unsigned\<close>
  by truncation. The root of a 32-bit integer is computed exactly enough for the
  truncation to be the integer square root, which \<open>sqrt_trunc\<close> computes by
  counting down; \<open>sqrt_trunc_floor\<close> below relates it to the real square root.
\<close>

fun sqrt_down :: "nat \<Rightarrow> nat \<Rightarrow> nat" where
  "sqrt_down n 0 = 0"
| "sqrt_down n (Suc k) = (if Suc k * Suc k \<le> n then Suc k else sqrt_down n k)"

definition sqrt_trunc :: "nat \<Rightarrow> nat" where
  "sqrt_trunc n = sqrt_down n n"

text \<open>
  \<open>while ((numHosts % numColumnHosts) != 0) numColumnHosts--;\<close> A remainder by zero
  is the error \<open>DivisionByZero\<close>.
\<close>

fun shrinkColumns :: "nat \<Rightarrow> nat \<Rightarrow> error + nat" where
  "shrinkColumns H 0 = Inl DivisionByZero"
| "shrinkColumns H (Suc c) = (if H mod Suc c \<noteq> 0 then shrinkColumns H c else Inr (Suc c))"

definition factorizeHosts :: "DistGraph \<Rightarrow> error + DistGraph" where
  "factorizeHosts g =
     (let g1 = g\<lparr>numVirtualHosts := (numHosts g * DecomposeFactor g) mod 2 ^ 32\<rparr> in
      case shrinkColumns (numHosts g) (sqrt_trunc (numHosts g)) of
        Inl e \<Rightarrow> Inl e
      | Inr c \<Rightarrow>
          let r = numHosts g div c in
          if \<not> ndebug g \<and> \<not> c \<le> r then Inl AssertionFailure
          else
            let g2 = (if moreColumnHosts g
                      then g1\<lparr>numRowHosts := c, numColumnHosts := r\<rparr>
                      else g1\<lparr>numRowHosts := r, numColumnHosts := c\<rparr>)
            in Inr (g2\<lparr>numRowHosts := (numRowHosts g2 * DecomposeFactor g) mod 2 ^ 32\<rparr>))"

text \<open>The wording of the specification: the largest divisor of \<open>H\<close> that is at most
  \<open>\<lfloor>\<surd>H\<rfloor>\<close>.\<close>

definition spec_columns :: "nat \<Rightarrow> nat" where
  "spec_columns H = Max {k. k dvd H \<and> k \<le> nat \<lfloor>sqrt (real H)\<rfloor>}"

subsection \<open>Grid coordinates\<close>

definition virtual2RealHost :: "DistGraph \<Rightarrow> nat \<Rightarrow> nat" where
  "virtual2RealHost g virutalHostID = virutalHostID mod numHosts g"

definition gridRowID :: "DistGraph \<Rightarrow> nat \<Rightarrow> nat" where
  "gridRowID g h = h div numColumnHosts g"

definition gridColumnID :: "DistGraph \<Rightarrow> nat \<Rightarrow> nat" where
  "gridColumnID g h = h mod numColumnHosts g"

subsection \<open>SyncPolicy: isNotCommunicationPartner, nothingToSend, nothingToRecv\<close>

text \<open>
  The \<open>writeAny\<close> and \<open>readAny\<close> branches assert that the peer shares a row or a column
  before they compute the result. The calls \<open>make_src_invalid\<close> and
  \<open>make_dst_invalid\<close> on \<open>currentBVFlag\<close> change a flag of the synchronisation runtime
  and not the returned value; the model is of the returned value. Grid coordinates
  divide by \<open>numColumnHosts\<close>, so a grid without columns is \<open>DivisionByZero\<close>.
\<close>

definition anyLocation :: "DistGraph \<Rightarrow> nat \<Rightarrow> error + bool" where
  "anyLocation g host =
     (if \<not> ndebug g \<and>
         \<not> (gridRowID g (hostID g) = gridRowID g host \<or>
            gridColumnID g (hostID g) = gridColumnID g host)
      then Inl AssertionFailure
      else Inr (gridRowID g (hostID g) \<noteq> gridRowID g host \<and>
                gridColumnID g (hostID g) \<noteq> gridColumnID g host))"

definition isNotCommunicationPartner ::
  "DistGraph \<Rightarrow> nat \<Rightarrow> SyncType \<Rightarrow> WriteLocation \<Rightarrow> ReadLocation \<Rightarrow> error + bool" where
  "isNotCommunicationPartner g host syncType writeLocation readLocation =
     (if numColumnHosts g = 0 then Inl DivisionByZero
      else if transposed g then
        (if syncType = syncReduce then
           (case writeLocation of
              writeSource \<Rightarrow> Inr (gridColumnID g (hostID g) \<noteq> gridColumnID g host)
            | writeDestination \<Rightarrow> Inr (gridRowID g (hostID g) \<noteq> gridRowID g host)
            | writeAny \<Rightarrow> anyLocation g host)
         else
           (case readLocation of
              readSource \<Rightarrow> Inr (gridColumnID g (hostID g) \<noteq> gridColumnID g host)
            | readDestination \<Rightarrow> Inr (gridRowID g (hostID g) \<noteq> gridRowID g host)
            | readAny \<Rightarrow> anyLocation g host))
      else
        (if syncType = syncReduce then
           (case writeLocation of
              writeSource \<Rightarrow> Inr (gridRowID g (hostID g) \<noteq> gridRowID g host)
            | writeDestination \<Rightarrow> Inr (gridColumnID g (hostID g) \<noteq> gridColumnID g host)
            | writeAny \<Rightarrow> anyLocation g host)
         else
           (case readLocation of
              readSource \<Rightarrow> Inr (gridRowID g (hostID g) \<noteq> gridRowID g host)
            | readDestination \<Rightarrow> Inr (gridColumnID g (hostID g) \<noteq> gridColumnID g host)
            | readAny \<Rightarrow> anyLocation g host)))"

text \<open>\<open>sharedNodes[host]\<close> is an unchecked vector access: a peer beyond the table is
  \<open>OutOfRange\<close>.\<close>

definition sharedDecision ::
  "DistGraph \<Rightarrow> nat list list \<Rightarrow> nat \<Rightarrow> SyncType \<Rightarrow> WriteLocation \<Rightarrow> ReadLocation
     \<Rightarrow> error + bool" where
  "sharedDecision g sharedNodes host syncType writeLocation readLocation =
     (if \<not> host < length sharedNodes then Inl OutOfRange
      else if length (sharedNodes ! host) > 0 then
        (if columnBlocked g then Inr False
         else isNotCommunicationPartner g host syncType writeLocation readLocation)
      else Inr True)"

definition nothingToSend ::
  "DistGraph \<Rightarrow> nat \<Rightarrow> SyncType \<Rightarrow> WriteLocation \<Rightarrow> ReadLocation \<Rightarrow> error + bool" where
  "nothingToSend g host syncType writeLocation readLocation =
     sharedDecision g (if syncType = syncReduce then mirrorNodes g else masterNodes g)
       host syncType writeLocation readLocation"

definition nothingToRecv ::
  "DistGraph \<Rightarrow> nat \<Rightarrow> SyncType \<Rightarrow> WriteLocation \<Rightarrow> ReadLocation \<Rightarrow> error + bool" where
  "nothingToRecv g host syncType writeLocation readLocation =
     sharedDecision g (if syncType = syncReduce then masterNodes g else mirrorNodes g)
       host syncType writeLocation readLocation"

text \<open>
  Modelled from the spec: \<open>setup_communication\<close> of the base class \<open>DistGraph\<close>, which is
  not part of the sources at hand. The specification says that \<open>masterNodes[h]\<close> is the
  reciprocal set of \<open>mirrorNodes\<close>, populated by an exchange between the hosts: host
  \<open>x\<close> receives from every host \<open>h\<close> the list that \<open>h\<close> keeps in \<open>mirrorNodes[x]\<close>.
  A cluster is the list of the hosts' states, host \<open>h\<close> at position \<open>h\<close>.
\<close>

definition setup_communication :: "DistGraph list \<Rightarrow> nat \<Rightarrow> DistGraph" where
  "setup_communication cluster x =
     (cluster ! x)\<lparr>masterNodes := map (\<lambda>h. mirrorNodes (cluster ! h) ! x) [0..<length cluster]\<rparr>"

text \<open>The hosts of one run: the same program and build, the same grid and orientation,
  and a mirror table with one entry for each host.\<close>

definition sameRun :: "DistGraph list \<Rightarrow> bool" where
  "sameRun cluster =
     (\<forall>x < length cluster.
        hostID (cluster ! x) = x \<and>
        length (mirrorNodes (cluster ! x)) = length cluster \<and>
        columnBlocked (cluster ! x) = columnBlocked (cluster ! 0) \<and>
        ndebug (cluster ! x) = ndebug (cluster ! 0) \<and>
        transposed (cluster ! x) = transposed (cluster ! 0) \<and>
        numColumnHosts (cluster ! x) = numColumnHosts (cluster ! 0))"

subsection \<open>Persistence of the local graph\<close>

text \<open>
  The Boost binary archive is a sequence of typed values: \<open>ar << v\<close> appends a value and
  \<open>ar >> v\<close> takes the first one, which must have the type of \<open>v\<close>.
\<close>

datatype archive_item =
    ItemUnsigned nat
  | ItemVector "nat list"
  | ItemMap "nat \<rightharpoonup> nat"

definition boostSerializeLocalGraph :: "DistGraph \<Rightarrow> archive_item list \<Rightarrow> archive_item list" where
  "boostSerializeLocalGraph g ar =
     ar @ [ItemUnsigned (numNodes g), ItemUnsigned (numRowHosts g),
           ItemUnsigned (numColumnHosts g), ItemVector (localToGlobalVector g),
           ItemMap (globalToLocalMap g)]"

fun readUnsigned :: "archive_item list \<Rightarrow> (nat \<times> archive_item list) option" where
  "readUnsigned (ItemUnsigned n # ar) = Some (n, ar)"
| "readUnsigned _ = None"

fun readVector :: "archive_item list \<Rightarrow> (nat list \<times> archive_item list) option" where
  "readVector (ItemVector v # ar) = Some (v, ar)"
| "readVector _ = None"

fun readMap :: "archive_item list \<Rightarrow> ((nat \<rightharpoonup> nat) \<times> archive_item list) option" where
  "readMap (ItemMap m # ar) = Some (m, ar)"
| "readMap _ = None"

definition boostDeSerializeLocalGraph ::
  "DistGraph \<Rightarrow> archive_item list \<Rightarrow> (DistGraph \<times> archive_item list) option" where
  "boostDeSerializeLocalGraph g ar =
     (case readUnsigned ar of None \<Rightarrow> None | Some (n, ar1) \<Rightarrow>
      case readUnsigned ar1 of None \<Rightarrow> None | Some (r, ar2) \<Rightarrow>
      case readUnsigned ar2 of None \<Rightarrow> None | Some (c, ar3) \<Rightarrow>
      case readVector ar3 of None \<Rightarrow> None | Some (l2g, ar4) \<Rightarrow>
      case readMap ar4 of None \<Rightarrow> None | Some (g2l, ar5) \<Rightarrow>
        Some (g\<lparr>numNodes := n, numRowHosts := r, numColumnHosts := c,
                localToGlobalVector := l2g, globalToLocalMap := g2l\<rparr>, ar5))"

subsection \<open>Loops that can fail\<close>

fun foldE :: "('a \<Rightarrow> 's \<Rightarrow> error + 's) \<Rightarrow> 'a list \<Rightarrow> 's \<Rightarrow> error + 's" where
  "foldE f [] s = Inr s"
| "foldE f (x # xs) s = (case f x s of Inl e \<Rightarrow> Inl e | Inr s' \<Rightarrow> foldE f xs s')"

subsection \<open>BlockMap: getHostID, getBlockID, getColumnHostID, getColumnIndex\<close>

text \<open>
  \<open>gid2host\<close> is computed by \<open>computeMasters\<close> of the base class and is an input here.
  The getters assert \<open>gid < numGlobalNodes\<close>; they are modelled on the ids the build
  passes to them, and a \<open>getHostID\<close> that finds no range returns \<open>numHosts\<close> as the
  release build does.
\<close>

definition getHostID :: "DistGraph \<Rightarrow> nat \<Rightarrow> nat" where
  "getHostID g gid =
     (case find (\<lambda>h. fst (gid2host g ! h) \<le> gid \<and> gid < snd (gid2host g ! h))
             [0..<numVirtualHosts g] of
        Some h \<Rightarrow> h
      | None \<Rightarrow> numHosts g)"

definition isOwned :: "DistGraph \<Rightarrow> nat \<Rightarrow> bool" where
  "isOwned g gid =
     list_ex (\<lambda>d. fst (gid2host g ! (hostID g + d * numHosts g)) \<le> gid \<and>
                  gid < snd (gid2host g ! (hostID g + d * numHosts g)))
       [0..<DecomposeFactor g]"

definition isLocal :: "DistGraph \<Rightarrow> nat \<Rightarrow> bool" where
  "isLocal g gid = (isOwned g gid \<or> globalToLocalMap g gid \<noteq> None)"

definition G2L :: "DistGraph \<Rightarrow> nat \<Rightarrow> error + nat" where
  "G2L g gid =
     (if \<not> ndebug g \<and> \<not> isLocal g gid then Inl AssertionFailure
      else case globalToLocalMap g gid of None \<Rightarrow> Inl KeyNotFound | Some lid \<Rightarrow> Inr lid)"

definition getBlockID :: "DistGraph \<Rightarrow> nat \<Rightarrow> nat" where
  "getBlockID g gid = getHostID g gid mod numHosts g"

definition getColumnHostIDOfBlock :: "DistGraph \<Rightarrow> nat \<Rightarrow> nat" where
  "getColumnHostIDOfBlock g blockID =
     (if columnBlocked g then blockID div numRowHosts g else blockID mod numColumnHosts g)"

definition getColumnHostID :: "DistGraph \<Rightarrow> nat \<Rightarrow> nat" where
  "getColumnHostID g gid = getColumnHostIDOfBlock g (getBlockID g gid)"

text \<open>\<open>uint64_t\<close> subtraction and the addition to the \<open>uint32_t columnIndex\<close>.\<close>

definition sub64 :: "nat \<Rightarrow> nat \<Rightarrow> nat" where
  "sub64 a b = (a + 2 ^ 64 - b) mod 2 ^ 64"

definition add32 :: "nat \<Rightarrow> nat \<Rightarrow> nat" where
  "add32 c x = (c + x) mod 2 ^ 32"

fun columnIndexLoop :: "DistGraph \<Rightarrow> nat \<Rightarrow> nat \<Rightarrow> nat list \<Rightarrow> nat \<Rightarrow> nat" where
  "columnIndexLoop g gid h [] columnIndex = columnIndex"
| "columnIndexLoop g gid h (b # bs) columnIndex =
     (if getColumnHostIDOfBlock g b = h then
        (if gid < snd (gid2host g ! b)
         then add32 columnIndex (sub64 gid (fst (gid2host g ! b)))
         else columnIndexLoop g gid h bs
                (add32 columnIndex (sub64 (snd (gid2host g ! b)) (fst (gid2host g ! b)))))
      else columnIndexLoop g gid h bs columnIndex)"

definition getColumnIndex :: "DistGraph \<Rightarrow> nat \<Rightarrow> nat" where
  "getColumnIndex g gid =
     columnIndexLoop g gid (getColumnHostIDOfBlock g (getBlockID g gid))
       [0..<Suc (getBlockID g gid)] 0"

text \<open>
  The wording of the specification for the column index: the position of the id within
  the concatenation, in block order, of all ranges of \<open>gid2host\<close> whose column peer is the
  column peer of the block of the id.
\<close>

definition columnConcat :: "DistGraph \<Rightarrow> nat \<Rightarrow> nat list" where
  "columnConcat g h =
     concat (map (\<lambda>b. [fst (gid2host g ! b)..<snd (gid2host g ! b)])
               (filter (\<lambda>b. getColumnHostIDOfBlock g b = h) [0..<numVirtualHosts g]))"

definition spec_columnIndex :: "DistGraph \<Rightarrow> nat \<Rightarrow> nat" where
  "spec_columnIndex g gid =
     length (takeWhile (\<lambda>x. x \<noteq> gid) (columnConcat g (getColumnHostID g gid)))"

subsection \<open>loadStatistics: inspection of the edges read by a host\<close>

text \<open>
  The graph file is the list of the destinations of the outgoing edges of every global
  node. The statistics of a host are its bitsets \<open>hasIncomingEdge\<close>, one for each
  grid column, and its counters \<open>numOutgoingEdges[d][i][j]\<close>. A bitset is the list of its
  bits, as long as the size it was given by \<open>resize\<close>; the update of a list beyond its
  length changes nothing, and so does \<open>set\<close> here.
\<close>

type_synonym graph_file = "nat list list"
type_synonym stats = "bool list list \<times> nat list list list"

definition rangeOf :: "DistGraph \<Rightarrow> nat \<Rightarrow> error + nat \<times> nat" where
  "rangeOf g h = (if h < length (gid2host g) then Inr (gid2host g ! h) else Inl OutOfRange)"

definition columnBlockSize :: "DistGraph \<Rightarrow> nat \<Rightarrow> nat" where
  "columnBlockSize g i =
     sum_list (map (\<lambda>b. snd (gid2host g ! b) - fst (gid2host g ! b))
                 (filter (\<lambda>b. getColumnHostIDOfBlock g b = i) [0..<numVirtualHosts g]))"

definition ownedSize :: "DistGraph \<Rightarrow> nat \<Rightarrow> nat" where
  "ownedSize g d =
     snd (gid2host g ! (hostID g + d * numHosts g)) -
     fst (gid2host g ! (hostID g + d * numHosts g))"

definition initialStats :: "DistGraph \<Rightarrow> stats" where
  "initialStats g =
     (map (\<lambda>i. replicate (columnBlockSize g i) False) [0..<numColumnHosts g],
      map (\<lambda>d. replicate (numColumnHosts g) (replicate (ownedSize g d) 0))
        [0..<DecomposeFactor g])"

definition inspectEdge :: "DistGraph \<Rightarrow> nat \<Rightarrow> nat \<Rightarrow> nat \<Rightarrow> nat \<Rightarrow> stats \<Rightarrow> error + stats" where
  "inspectEdge g d rowOffset src dst st =
     (let h = getColumnHostID g dst; ci = getColumnIndex g dst;
          hasIncomingEdge = fst st; numOutgoingEdges = snd st in
      if \<not> h < length hasIncomingEdge then Inl OutOfRange
      else if \<not> (d < length numOutgoingEdges \<and> h < length (numOutgoingEdges ! d) \<and>
                  src - rowOffset < length (numOutgoingEdges ! d ! h)) then Inl OutOfRange
      else Inr (hasIncomingEdge[h := (hasIncomingEdge ! h)[ci := True]],
                numOutgoingEdges[d := (numOutgoingEdges ! d)
                  [h := (numOutgoingEdges ! d ! h)
                     [src - rowOffset := Suc (numOutgoingEdges ! d ! h ! (src - rowOffset))]]]))"

definition inspectNode :: "DistGraph \<Rightarrow> graph_file \<Rightarrow> nat \<Rightarrow> nat \<Rightarrow> nat \<Rightarrow> stats \<Rightarrow> error + stats" where
  "inspectNode g file d rowOffset src st =
     (if src < length file then foldE (inspectEdge g d rowOffset src) (file ! src) st
      else Inl OutOfRange)"

definition inspectRange :: "DistGraph \<Rightarrow> graph_file \<Rightarrow> nat \<Rightarrow> stats \<Rightarrow> error + stats" where
  "inspectRange g file d st =
     (case rangeOf g (hostID g + d * numHosts g) of
        Inl e \<Rightarrow> Inl e
      | Inr r \<Rightarrow> foldE (inspectNode g file d (fst r)) [fst r..<snd r] st)"

definition inspect :: "DistGraph \<Rightarrow> graph_file \<Rightarrow> error + stats" where
  "inspect g file = foldE (inspectRange g file) [0..<DecomposeFactor g] (initialStats g)"

subsection \<open>loadStatistics: exchange along the grid row\<close>

text \<open>
  A host sends to every other host of its grid row the counters and the bitset of the
  receiver's column. The network delivers to a host the messages addressed to it, here
  in the order of the senders; a host whose inspection failed sends nothing. The
  receive loop takes \<open>numColumnHosts - 1\<close> messages and files each under the column of
  its sender.
\<close>

type_synonym stats_message = "nat \<times> nat list list \<times> bool list"

definition statsMessages :: "DistGraph \<Rightarrow> stats \<Rightarrow> (nat \<times> stats_message) list" where
  "statsMessages g st =
     map (\<lambda>i. (gridRowID g (hostID g) * numColumnHosts g + i,
               (hostID g, map (\<lambda>d. snd st ! d ! i) [0..<DecomposeFactor g], fst st ! i)))
       (filter (\<lambda>i. gridRowID g (hostID g) * numColumnHosts g + i \<noteq> hostID g)
          [0..<numColumnHosts g])"

definition sentStats :: "DistGraph \<Rightarrow> graph_file \<Rightarrow> nat \<Rightarrow> (nat \<times> stats_message) list" where
  "sentStats g file x =
     (case inspect (g\<lparr>hostID := x\<rparr>) file of
        Inl e \<Rightarrow> []
      | Inr st \<Rightarrow> statsMessages (g\<lparr>hostID := x\<rparr>) st)"

definition statsInbox :: "DistGraph \<Rightarrow> graph_file \<Rightarrow> stats_message list" where
  "statsInbox g file =
     concat (map (\<lambda>x. map snd (filter (\<lambda>m. fst m = hostID g) (sentStats g file x)))
               [0..<numHosts g])"

fun receiveStats :: "DistGraph \<Rightarrow> nat \<Rightarrow> stats_message list \<Rightarrow> stats \<Rightarrow> error + stats" where
  "receiveStats g 0 inbox st = Inr st"
| "receiveStats g (Suc k) [] st = Inl NoMessage"
| "receiveStats g (Suc k) ((sender, vecs, bits) # inbox) st =
     (let h = sender mod numColumnHosts g in
      receiveStats g k inbox
        ((fst st)[h := bits], map (\<lambda>d. (snd st ! d)[h := vecs ! d]) [0..<DecomposeFactor g]))"

text \<open>
  Modelled from the spec: \<open>DynamicBitSet\<close>, which is not part of the sources at hand. The
  specification calls it a bitset over an index space. The source calls \<open>set\<close> and \<open>test\<close>
  with no guard on the index, so neither of them fails in the model: a \<open>set\<close> beyond the
  size changes no bit of the set, and a \<open>test\<close> beyond the size reads what \<open>strayBits\<close>
  holds at the index, which can be any value. \<open>bitwise_or\<close> sets in a bitset the bits that
  its argument has set.
\<close>

definition testBit :: "DistGraph \<Rightarrow> bool list \<Rightarrow> nat \<Rightarrow> bool" where
  "testBit g bits k = (if k < length bits then bits ! k else strayBits g k)"

definition bitwise_or :: "bool list \<Rightarrow> bool list \<Rightarrow> bool list" where
  "bitwise_or a b = map (\<lambda>k. a ! k \<or> (k < length b \<and> b ! k)) [0..<length a]"

text \<open>\<open>hasIncomingEdge[0].bitwise_or(hasIncomingEdge[i])\<close> for every other column.\<close>

definition orReduce :: "bool list list \<Rightarrow> error + bool list" where
  "orReduce hasIncomingEdge =
     (case hasIncomingEdge of
        [] \<Rightarrow> Inl OutOfRange
      | b0 # bs \<Rightarrow> Inr (foldl bitwise_or b0 bs))"

subsection \<open>loadStatistics: layout of the local nodes\<close>

text \<open>
  The loops of the layout read the grid, the ranges and the build of the host \<open>g\<close> and
  change the local index: \<open>localToGlobalVector\<close>, \<open>globalToLocalMap\<close>, \<open>numNodes\<close>,
  \<open>numEdges\<close>, \<open>dummyOutgoingNodes\<close>, the count of warnings, and the vector
  \<open>prefixSumOfEdges\<close> of the caller. The changing members are the state \<open>(s, prefix)\<close>.
\<close>

type_synonym layout = "DistGraph \<times> nat list"

text \<open>
  \<open>localToGlobalVector.push_back(src); assert(globalToLocalMap.find(src) ==
  globalToLocalMap.end()); globalToLocalMap[src] = numNodes++;
  prefixSumOfEdges.push_back(numEdges);\<close> with the \<open>uint32_t numNodes\<close>.
\<close>

definition createNode :: "DistGraph \<Rightarrow> nat \<Rightarrow> layout \<Rightarrow> error + layout" where
  "createNode g src st =
     (let s = fst st; prefixSumOfEdges = snd st in
      if \<not> ndebug g \<and> globalToLocalMap s src \<noteq> None then Inl AssertionFailure
      else Inr (s\<lparr>localToGlobalVector := localToGlobalVector s @ [src],
                  globalToLocalMap := (globalToLocalMap s)(src \<mapsto> numNodes s),
                  numNodes := (numNodes s + 1) mod 2 ^ 32\<rparr>,
                prefixSumOfEdges @ [numEdges s]))"

definition addEdges :: "nat \<Rightarrow> layout \<Rightarrow> layout" where
  "addEdges n st = ((fst st)\<lparr>numEdges := numEdges (fst st) + n\<rparr>, snd st)"

text \<open>The loop over \<open>j\<close> of the owned nodes of one virtual host; \<open>src\<close> runs along with
  the counters \<open>numOutgoingEdges[d][i]\<close>. The counter \<open>j\<close> is a \<open>uint32_t\<close> compared with
  the size of the vector: it stays below a size of \<open>2 ^ 32\<close> or more for ever, while the
  loop keeps pushing nodes.\<close>

fun ownedLoop :: "DistGraph \<Rightarrow> nat \<Rightarrow> nat list \<Rightarrow> layout \<Rightarrow> error + layout" where
  "ownedLoop g src [] st = Inr st"
| "ownedLoop g src (n # ns) st =
     (case createNode g src (addEdges n st) of
        Inl e \<Rightarrow> Inl e
      | Inr st' \<Rightarrow> ownedLoop g (Suc src) ns st')"

definition ownedNodes :: "DistGraph \<Rightarrow> stats \<Rightarrow> nat \<Rightarrow> layout \<Rightarrow> error + layout" where
  "ownedNodes g stats d st =
     (case rangeOf g (hostID g + d * numHosts g) of
        Inl e \<Rightarrow> Inl e
      | Inr r \<Rightarrow>
          if d < length (snd stats) \<and> gridColumnID g (hostID g) < length (snd stats ! d)
          then (if length (snd stats ! d ! gridColumnID g (hostID g)) < 2 ^ 32
                then ownedLoop g (fst r) (snd stats ! d ! gridColumnID g (hostID g)) st
                else Inl NoReturn)
          else Inl OutOfRange)"

text \<open>
  The loop over \<open>j\<close> of the sources of another host of the grid row. A source without
  outgoing edges for this host whose column is the column of this host and whose
  incoming bit is set is a dummy outgoing node under \<open>columnBlocked\<close>; otherwise the
  code warns and asserts \<open>false\<close>, and a release build goes on to create the node.
\<close>

definition dummyOutgoing :: "DistGraph \<Rightarrow> nat \<Rightarrow> layout \<Rightarrow> error + layout" where
  "dummyOutgoing g src st =
     (if columnBlocked g
      then createNode g src
             ((fst st)\<lparr>dummyOutgoingNodes := dummyOutgoingNodes (fst st) + 1\<rparr>, snd st)
      else if \<not> ndebug g then Inl AssertionFailure
      else createNode g src ((fst st)\<lparr>warnings := warnings (fst st) + 1\<rparr>, snd st))"

definition mirrorStep ::
  "DistGraph \<Rightarrow> bool list \<Rightarrow> nat \<Rightarrow> nat \<Rightarrow> nat \<Rightarrow> layout \<Rightarrow> error + layout" where
  "mirrorStep g hasIncomingEdge0 i src n st =
     (if n > 0 then createNode g src (addEdges n st)
      else if gridColumnID g (hostID g + i * numHosts g) = getColumnHostID g src \<and>
              testBit g hasIncomingEdge0 (getColumnIndex g src)
      then dummyOutgoing g src st
      else Inr st)"

fun mirrorLoop ::
  "DistGraph \<Rightarrow> bool list \<Rightarrow> nat \<Rightarrow> nat \<Rightarrow> nat list \<Rightarrow> layout \<Rightarrow> error + layout" where
  "mirrorLoop g hasIncomingEdge0 i src [] st = Inr st"
| "mirrorLoop g hasIncomingEdge0 i src (n # ns) st =
     (case mirrorStep g hasIncomingEdge0 i src n st of
        Inl e \<Rightarrow> Inl e
      | Inr st' \<Rightarrow> mirrorLoop g hasIncomingEdge0 i (Suc src) ns st')"

definition leaderHostID :: "DistGraph \<Rightarrow> nat \<Rightarrow> nat" where
  "leaderHostID g d = gridRowID g (hostID g + d * numHosts g) * numColumnHosts g"

definition outgoingMirrorsOf ::
  "DistGraph \<Rightarrow> stats \<Rightarrow> bool list \<Rightarrow> nat \<Rightarrow> nat \<Rightarrow> layout \<Rightarrow> error + layout" where
  "outgoingMirrorsOf g stats hasIncomingEdge0 d i st =
     (if virtual2RealHost g (leaderHostID g d + i) = hostID g then Inr st
      else case rangeOf g (leaderHostID g d + i) of
        Inl e \<Rightarrow> Inl e
      | Inr r \<Rightarrow>
          if d < length (snd stats) \<and> i < length (snd stats ! d)
          then (if length (snd stats ! d ! i) < 2 ^ 32
                then mirrorLoop g hasIncomingEdge0 i (fst r) (snd stats ! d ! i) st
                else Inl NoReturn)
          else Inl OutOfRange)"

definition outgoingMirrors ::
  "DistGraph \<Rightarrow> stats \<Rightarrow> bool list \<Rightarrow> nat \<Rightarrow> layout \<Rightarrow> error + layout" where
  "outgoingMirrors g stats hasIncomingEdge0 d st =
     foldE (outgoingMirrorsOf g stats hasIncomingEdge0 d) [0..<numColumnHosts g] st"

text \<open>The loop over the destinations of a virtual host of the grid column.\<close>

definition incomingStep :: "DistGraph \<Rightarrow> bool list \<Rightarrow> nat \<Rightarrow> layout \<Rightarrow> error + layout" where
  "incomingStep g hasIncomingEdge0 dst st =
     (if testBit g hasIncomingEdge0 (getColumnIndex g dst) then createNode g dst st
      else Inr st)"

definition incomingHost :: "DistGraph \<Rightarrow> nat \<Rightarrow> nat" where
  "incomingHost g i =
     (if columnBlocked g then gridColumnID g (hostID g) * numRowHosts g + i
      else i * numColumnHosts g + gridColumnID g (hostID g))"

definition inOwnRows :: "DistGraph \<Rightarrow> nat \<Rightarrow> bool" where
  "inOwnRows g hostID_virtual =
     list_ex (\<lambda>d. leaderHostID g d \<le> hostID_virtual \<and>
                  hostID_virtual < leaderHostID g d + numColumnHosts g)
       [0..<DecomposeFactor g]"

definition incomingMirrorsOf :: "DistGraph \<Rightarrow> bool list \<Rightarrow> nat \<Rightarrow> layout \<Rightarrow> error + layout" where
  "incomingMirrorsOf g hasIncomingEdge0 i st =
     (if virtual2RealHost g (incomingHost g i) = hostID g then Inr st
      else if columnBlocked g \<and> inOwnRows g (incomingHost g i) then Inr st
      else case rangeOf g (incomingHost g i) of
        Inl e \<Rightarrow> Inl e
      | Inr r \<Rightarrow> foldE (incomingStep g hasIncomingEdge0) [fst r..<snd r] st)"

definition setNodesWithEdges :: "layout \<Rightarrow> layout" where
  "setNodesWithEdges st = ((fst st)\<lparr>numNodesWithEdges := numNodes (fst st)\<rparr>, snd st)"

definition layoutNodes :: "DistGraph \<Rightarrow> stats \<Rightarrow> bool list \<Rightarrow> error + layout" where
  "layoutNodes g stats hasIncomingEdge0 =
     (case foldE (ownedNodes g stats) [0..<DecomposeFactor g]
             (g\<lparr>dummyOutgoingNodes := 0, numNodes := 0, numEdges := 0\<rparr>, []) of
        Inl e \<Rightarrow> Inl e
      | Inr st1 \<Rightarrow>
     (case foldE (outgoingMirrors g stats hasIncomingEdge0) [0..<DecomposeFactor g] st1 of
        Inl e \<Rightarrow> Inl e
      | Inr st2 \<Rightarrow>
          foldE (incomingMirrorsOf g hasIncomingEdge0) [0..<numRowHosts g]
            (setNodesWithEdges st2)))"

definition sumOwned :: "DistGraph \<Rightarrow> nat" where
  "sumOwned g = sum_list (map (ownedSize g) [0..<DecomposeFactor g])"

definition loadStatistics :: "DistGraph \<Rightarrow> graph_file \<Rightarrow> error + layout" where
  "loadStatistics g file =
     (let g0 = g\<lparr>numOwned := sumOwned g\<rparr> in
      case inspect g0 file of
        Inl e \<Rightarrow> Inl e
      | Inr own \<Rightarrow>
     (case receiveStats g0 (numColumnHosts g0 - 1) (statsInbox g0 file) own of
        Inl e \<Rightarrow> Inl e
      | Inr stats \<Rightarrow>
     (case orReduce (fst stats) of
        Inl e \<Rightarrow> Inl e
      | Inr hasIncomingEdge0 \<Rightarrow> layoutNodes g0 stats hasIncomingEdge0)))"

subsection \<open>The local graph\<close>

text \<open>
  Modelled from the spec: the compressed sparse row graph \<open>LC_CSR_Graph\<close> behind
  \<open>base_DistGraph::graph\<close>, which is not part of the sources at hand. The specification
  says that the loader allocates a CSR of \<open>numNodes\<close> nodes and \<open>numEdges\<close> edges and
  writes the prefix sums into the node-end positions; the edges of a node are the slots
  from the end of the node before it to its own end, and \<open>constructEdge\<close> fills one slot
  with a local destination.
\<close>

record csr =
  edgeIndData :: "nat list"
  edgeDst :: "nat option list"

definition allocateFrom :: "nat \<Rightarrow> nat \<Rightarrow> csr" where
  "allocateFrom nNodes nEdges =
     \<lparr>edgeIndData = replicate nNodes 0, edgeDst = replicate nEdges None\<rparr>"

definition fixEndEdge :: "nat \<Rightarrow> nat \<Rightarrow> csr \<Rightarrow> error + csr" where
  "fixEndEdge n e graph =
     (if n < length (edgeIndData graph)
      then Inr (graph\<lparr>edgeIndData := (edgeIndData graph)[n := e]\<rparr>)
      else Inl OutOfRange)"

definition edge_begin :: "csr \<Rightarrow> nat \<Rightarrow> nat" where
  "edge_begin graph n = (if n = 0 then 0 else edgeIndData graph ! (n - 1))"

definition edge_end :: "csr \<Rightarrow> nat \<Rightarrow> nat" where
  "edge_end graph n = edgeIndData graph ! n"

definition constructEdge :: "nat \<Rightarrow> nat \<Rightarrow> csr \<Rightarrow> error + csr" where
  "constructEdge e ldst graph =
     (if e < length (edgeDst graph)
      then Inr (graph\<lparr>edgeDst := (edgeDst graph)[e := Some ldst]\<rparr>)
      else Inl OutOfRange)"

subsection \<open>loadEdges: the second pass\<close>

text \<open>
  A host reads the edges of its own nodes. An edge whose column peer in the grid row of
  the host is the host itself is constructed at the cursor of its source; any other
  edge is collected for its column peer, and the destinations collected for one source
  and one peer are one record of the peer's send buffer. The buffers are sent when the
  loop over a virtual host ends (\<open>edgePartitionSendBufSize\<close> is taken to be large
  enough not to send earlier), and a host whose pass failed has sent nothing.
\<close>

type_synonym edge_record = "nat \<times> nat list"
type_synonym route = "nat \<times> csr \<times> nat list list"

definition routeEdge :: "DistGraph \<Rightarrow> nat \<Rightarrow> nat \<Rightarrow> route \<Rightarrow> error + route" where
  "routeEdge g n gdst st =
     (let cur = fst st; graph = fst (snd st); gdst_vec = snd (snd st);
          i = getColumnHostID g gdst in
      if gridRowID g (hostID g) * numColumnHosts g + i = hostID g then
        (if \<not> ndebug g \<and> \<not> isLocal g n then Inl AssertionFailure
         else case G2L g gdst of
           Inl e \<Rightarrow> Inl e
         | Inr ldst \<Rightarrow>
             (case constructEdge cur ldst graph of
                Inl e \<Rightarrow> Inl e
              | Inr graph' \<Rightarrow> Inr (Suc cur, graph', gdst_vec)))
      else if i < length gdst_vec
      then Inr (cur, graph, gdst_vec[i := gdst_vec ! i @ [gdst]])
      else Inl OutOfRange)"

definition appendRecords :: "nat \<Rightarrow> nat list list \<Rightarrow> edge_record list list \<Rightarrow> edge_record list list" where
  "appendRecords n gdst_vec sb =
     map (\<lambda>i. if gdst_vec ! i \<noteq> [] then sb ! i @ [(n, gdst_vec ! i)] else sb ! i)
       [0..<length sb]"

definition loadNode ::
  "DistGraph \<Rightarrow> graph_file \<Rightarrow> nat \<Rightarrow> csr \<times> edge_record list list
     \<Rightarrow> error + csr \<times> edge_record list list" where
  "loadNode g file n st =
     (let graph = fst st; sb = snd st in
      case (if isLocal g n then G2L g n else Inr 0) of
        Inl e \<Rightarrow> Inl e
      | Inr lsrc \<Rightarrow>
          if \<not> n < length file then Inl OutOfRange
          else
            (case foldE (routeEdge g n) (file ! n)
                    (if isLocal g n then edge_begin graph lsrc else 0, graph,
                     replicate (numColumnHosts g) []) of
               Inl e \<Rightarrow> Inl e
             | Inr r \<Rightarrow>
                 if isLocal g n \<and> \<not> ndebug g \<and> fst r \<noteq> edge_end (fst (snd r)) lsrc
                 then Inl AssertionFailure
                 else Inr (fst (snd r), appendRecords n (snd (snd r)) sb)))"

definition flushBuffers :: "DistGraph \<Rightarrow> edge_record list list \<Rightarrow> (nat \<times> edge_record list) list" where
  "flushBuffers g sb =
     map (\<lambda>i. (gridRowID g (hostID g) * numColumnHosts g + i, sb ! i))
       (filter (\<lambda>i. sb ! i \<noteq> []) [0..<numColumnHosts g])"

definition loadRange ::
  "DistGraph \<Rightarrow> graph_file \<Rightarrow> nat \<Rightarrow> csr \<times> (nat \<times> edge_record list) list
     \<Rightarrow> error + csr \<times> (nat \<times> edge_record list) list" where
  "loadRange g file d st =
     (case rangeOf g (hostID g + d * numHosts g) of
        Inl e \<Rightarrow> Inl e
      | Inr r \<Rightarrow>
          (case foldE (loadNode g file) [fst r..<snd r]
                  (fst st, replicate (numColumnHosts g) []) of
             Inl e \<Rightarrow> Inl e
           | Inr st' \<Rightarrow> Inr (fst st', snd st @ flushBuffers g (snd st'))))"

definition loadEdgesFromFile ::
  "DistGraph \<Rightarrow> graph_file \<Rightarrow> csr \<Rightarrow> error + csr \<times> (nat \<times> edge_record list) list" where
  "loadEdgesFromFile g file graph =
     foldE (loadRange g file) [0..<DecomposeFactor g] (graph, [])"

text \<open>
  \<open>processReceivedEdgeBuffer\<close> with \<open>deserializeEdges\<close>: every record of a buffer fills
  the slots of its source from the first to the last, and counts one node.
\<close>

definition deserializeEdge :: "DistGraph \<Rightarrow> nat list \<Rightarrow> nat \<Rightarrow> nat \<Rightarrow> csr \<Rightarrow> error + csr" where
  "deserializeEdge g gdst_vec cur0 cur graph =
     (if \<not> cur - cur0 < length gdst_vec then Inl OutOfRange
      else case G2L g (gdst_vec ! (cur - cur0)) of
        Inl e \<Rightarrow> Inl e
      | Inr ldst \<Rightarrow> constructEdge cur ldst graph)"

definition processRecord :: "DistGraph \<Rightarrow> edge_record \<Rightarrow> csr \<times> nat \<Rightarrow> error + csr \<times> nat" where
  "processRecord g rec st =
     (let n = fst rec; gdst_vec = snd rec; graph = fst st in
      if \<not> ndebug g \<and> \<not> isLocal g n then Inl AssertionFailure
      else case G2L g n of
        Inl e \<Rightarrow> Inl e
      | Inr lsrc \<Rightarrow>
          if \<not> ndebug g \<and> edge_end graph lsrc - edge_begin graph lsrc \<noteq> length gdst_vec
          then Inl AssertionFailure
          else
            (case foldE (deserializeEdge g gdst_vec (edge_begin graph lsrc))
                    [edge_begin graph lsrc..<edge_end graph lsrc] graph of
               Inl e \<Rightarrow> Inl e
             | Inr graph' \<Rightarrow> Inr (graph', Suc (snd st))))"

text \<open>\<open>receiveEdges\<close>: buffers are taken while the count of finished nodes is below
  \<open>numNodesWithEdges\<close>.\<close>

fun receiveEdges ::
  "DistGraph \<Rightarrow> edge_record list list \<Rightarrow> csr \<times> nat \<Rightarrow> error + csr \<times> nat" where
  "receiveEdges g [] st =
     (if snd st < numNodesWithEdges g then Inl NoMessage else Inr st)"
| "receiveEdges g (buffer # inbox) st =
     (if snd st < numNodesWithEdges g
      then (case foldE (processRecord g) buffer st of
              Inl e \<Rightarrow> Inl e
            | Inr st' \<Rightarrow> receiveEdges g inbox st')
      else Inr st)"

subsection \<open>fillMirrorNodes\<close>

definition mirrorsOfRange :: "DistGraph \<Rightarrow> nat \<Rightarrow> nat list list \<Rightarrow> error + nat list list" where
  "mirrorsOfRange g hostID_virtual mirrors =
     (case rangeOf g hostID_virtual of
        Inl e \<Rightarrow> Inl e
      | Inr r \<Rightarrow>
          if virtual2RealHost g hostID_virtual < length mirrors
          then Inr (mirrors[virtual2RealHost g hostID_virtual :=
                      mirrors ! virtual2RealHost g hostID_virtual @
                      filter (\<lambda>src. globalToLocalMap g src \<noteq> None) [fst r..<snd r]])
          else Inl OutOfRange)"

definition outgoingMirrorNodes :: "DistGraph \<Rightarrow> nat \<Rightarrow> nat \<Rightarrow> nat list list \<Rightarrow> error + nat list list" where
  "outgoingMirrorNodes g d i mirrors =
     (if leaderHostID g d + i = hostID g + d * numHosts g then Inr mirrors
      else mirrorsOfRange g (leaderHostID g d + i) mirrors)"

definition incomingHostOf :: "DistGraph \<Rightarrow> nat \<Rightarrow> nat \<Rightarrow> nat" where
  "incomingHostOf g d i =
     (if columnBlocked g
      then gridColumnID g (hostID g + d * numHosts g) * numRowHosts g + i
      else i * numColumnHosts g + gridColumnID g (hostID g + d * numHosts g))"

definition incomingMirrorNodes :: "DistGraph \<Rightarrow> nat \<Rightarrow> nat \<Rightarrow> nat list list \<Rightarrow> error + nat list list" where
  "incomingMirrorNodes g d i mirrors =
     (if incomingHostOf g d i = hostID g + d * numHosts g then Inr mirrors
      else if columnBlocked g \<and> leaderHostID g d \<le> incomingHostOf g d i \<and>
              incomingHostOf g d i < leaderHostID g d + numColumnHosts g then Inr mirrors
      else mirrorsOfRange g (incomingHostOf g d i) mirrors)"

definition fillMirrorNodes :: "DistGraph \<Rightarrow> nat list list \<Rightarrow> error + nat list list" where
  "fillMirrorNodes g mirrors =
     (case foldE (\<lambda>d. foldE (outgoingMirrorNodes g d) [0..<numColumnHosts g])
             [0..<DecomposeFactor g] mirrors of
        Inl e \<Rightarrow> Inl e
      | Inr mirrors1 \<Rightarrow>
          foldE (\<lambda>d. foldE (incomingMirrorNodes g d) [0..<numRowHosts g])
            [0..<DecomposeFactor g] mirrors1)"

subsection \<open>The constructor\<close>

text \<open>
  The constructor, for a graph that is not transposed in memory: the grid, the first
  pass, the allocation of the local graph with the prefix sums as node ends,
  \<open>beginMaster\<close>, the second pass and the mirror tables. \<open>mirrorNodes\<close> starts with an
  empty list for every host.
\<close>

definition fixEndEdges :: "DistGraph \<Rightarrow> nat list \<Rightarrow> csr \<Rightarrow> error + csr" where
  "fixEndEdges s prefixSumOfEdges graph =
     foldE (\<lambda>n gr. if n < length prefixSumOfEdges then fixEndEdge n (prefixSumOfEdges ! n) gr
                    else Inl OutOfRange)
       [0..<numNodes s] graph"

definition setBeginMaster :: "DistGraph \<Rightarrow> error + DistGraph" where
  "setBeginMaster s =
     (if numOwned s \<noteq> 0 then
        (case rangeOf s (hostID s) of
           Inl e \<Rightarrow> Inl e
         | Inr r \<Rightarrow>
             (case G2L s (fst r) of
                Inl e \<Rightarrow> Inl e
              | Inr lid \<Rightarrow> Inr (s\<lparr>beginMaster := lid\<rparr>)))
      else Inr (s\<lparr>beginMaster := 0\<rparr>))"

definition firstStatistics :: "DistGraph \<Rightarrow> graph_file \<Rightarrow> error + layout" where
  "firstStatistics g file =
     (case factorizeHosts g of
        Inl e \<Rightarrow> Inl e
      | Inr g1 \<Rightarrow> loadStatistics g1 file)"

definition firstPass :: "DistGraph \<Rightarrow> graph_file \<Rightarrow> error + DistGraph \<times> csr" where
  "firstPass g file =
     (case firstStatistics g file of
        Inl e \<Rightarrow> Inl e
      | Inr st \<Rightarrow>
          if \<not> ndebug g \<and> length (snd st) \<noteq> numNodes (fst st) then Inl AssertionFailure
          else
            (case fixEndEdges (fst st) (snd st)
                    (allocateFrom (numNodes (fst st)) (numEdges (fst st))) of
               Inl e \<Rightarrow> Inl e
             | Inr graph \<Rightarrow>
                 (case setBeginMaster (fst st) of
                    Inl e \<Rightarrow> Inl e
                  | Inr s \<Rightarrow> Inr (s, graph))))"

definition localPass ::
  "DistGraph \<Rightarrow> graph_file \<Rightarrow> error + DistGraph \<times> csr \<times> (nat \<times> edge_record list) list" where
  "localPass g file =
     (case firstPass g file of
        Inl e \<Rightarrow> Inl e
      | Inr sg \<Rightarrow>
          (case loadEdgesFromFile (fst sg) file (snd sg) of
             Inl e \<Rightarrow> Inl e
           | Inr r \<Rightarrow> Inr (fst sg, fst r, snd r)))"

definition sentEdges :: "DistGraph \<Rightarrow> graph_file \<Rightarrow> nat \<Rightarrow> (nat \<times> edge_record list) list" where
  "sentEdges g file x =
     (case localPass (g\<lparr>hostID := x\<rparr>) file of
        Inl e \<Rightarrow> []
      | Inr r \<Rightarrow> snd (snd r))"

definition edgeInbox :: "DistGraph \<Rightarrow> graph_file \<Rightarrow> edge_record list list" where
  "edgeInbox g file =
     concat (map (\<lambda>x. map snd (filter (\<lambda>m. fst m = hostID g) (sentEdges g file x)))
               [0..<numHosts g])"

definition constructDistGraph :: "DistGraph \<Rightarrow> graph_file \<Rightarrow> error + DistGraph \<times> csr" where
  "constructDistGraph g file =
     (case localPass g file of
        Inl e \<Rightarrow> Inl e
      | Inr r \<Rightarrow>
     (case receiveEdges (fst r) (edgeInbox g file)
             (fst (snd r), numOwned (fst r) + dummyOutgoingNodes (fst r)) of
        Inl e \<Rightarrow> Inl e
      | Inr gc \<Rightarrow>
          let s = (if columnBlocked (fst r)
                   then (fst r)\<lparr>numNodesWithEdges := numNodes (fst r)\<rparr> else fst r)
          in (case fillMirrorNodes s (replicate (numHosts s) []) of
                Inl e \<Rightarrow> Inl e
              | Inr mirrors \<Rightarrow> Inr (s\<lparr>mirrorNodes := mirrors\<rparr>, fst gc))))"

text \<open>The edges a host holds after the construction, in global ids, and the edges of
  the graph file.\<close>

definition localEdges :: "DistGraph \<Rightarrow> csr \<Rightarrow> (nat \<times> nat) list" where
  "localEdges s graph =
     concat (map (\<lambda>lsrc.
        map (\<lambda>e. (localToGlobalVector s ! lsrc,
                  localToGlobalVector s ! the (edgeDst graph ! e)))
          (filter (\<lambda>e. edgeDst graph ! e \<noteq> None) [edge_begin graph lsrc..<edge_end graph lsrc]))
        [0..<numNodes s])"

definition constructedEdges :: "DistGraph \<Rightarrow> graph_file \<Rightarrow> nat \<Rightarrow> ((nat \<times> nat) list) option" where
  "constructedEdges g file x =
     (case constructDistGraph (g\<lparr>hostID := x\<rparr>) file of
        Inl e \<Rightarrow> None
      | Inr r \<Rightarrow> Some (localEdges (fst r) (snd r)))"

definition globalEdges :: "graph_file \<Rightarrow> (nat \<times> nat) list" where
  "globalEdges file = concat (map (\<lambda>s. map (Pair s) (file ! s)) [0..<length file])"

text \<open>The host a global edge belongs to: the grid row of the owner of its source and
  the column peer of the block of its destination.\<close>

definition edgeHost :: "DistGraph \<Rightarrow> nat \<times> nat \<Rightarrow> nat" where
  "edgeHost g e =
     gridRowID g (virtual2RealHost g (getHostID g (fst e))) * numColumnHosts g +
     getColumnHostID g (snd e)"

text \<open>A host before its construction.\<close>

definition newHost :: "bool \<Rightarrow> bool \<Rightarrow> nat \<Rightarrow> bool \<Rightarrow> nat \<Rightarrow> nat \<Rightarrow> (nat \<times> nat) list \<Rightarrow> nat \<Rightarrow> DistGraph" where
  "newHost colBlocked moreCols D release host nHosts ranges n =
     \<lparr>columnBlocked = colBlocked, moreColumnHosts = moreCols, DecomposeFactor = D,
      ndebug = release, hostID = host, numHosts = nHosts, numGlobalNodes = n,
      gid2host = ranges, transposed = False, numRowHosts = 0, numColumnHosts = 0,
      numVirtualHosts = 0, dummyOutgoingNodes = 0, localToGlobalVector = [],
      globalToLocalMap = Map.empty, numNodes = 0, numEdges = 0, numOwned = 0,
      beginMaster = 0, numNodesWithEdges = 0, mirrorNodes = [], masterNodes = [],
      warnings = 0, strayBits = (\<lambda>k. False)\<rparr>"

subsection \<open>The block map and the growth of the local index\<close>

text \<open>
  Modelled from the spec: the result of \<open>computeMasters\<close> of the base class, which is not
  part of the sources at hand. The specification says that the block map is a table of
  half-open ranges of global ids, contiguous and covering \<open>[0, N)\<close>.
\<close>

definition blockMap :: "(nat \<times> nat) list \<Rightarrow> nat \<Rightarrow> bool" where
  "blockMap ranges n \<longleftrightarrow>
     ranges \<noteq> [] \<and> fst (ranges ! 0) = 0 \<and> snd (last ranges) = n \<and>
     list_all (\<lambda>k. fst (ranges ! k) \<le> snd (ranges ! k) \<and>
                    (Suc k < length ranges \<longrightarrow> snd (ranges ! k) = fst (ranges ! Suc k)))
       [0..<length ranges]"

text \<open>
  Modelled from the spec: the graph file behind \<open>OfflineGraph\<close> and \<open>BufferedGraph\<close>,
  which are not part of the sources at hand. The specification says that the global graph
  has \<open>N\<close> nodes with the ids \<open>[0, N)\<close> and directed edges between them.
\<close>

definition graphFile :: "graph_file \<Rightarrow> nat \<Rightarrow> bool" where
  "graphFile file n \<longleftrightarrow> length file = n \<and> list_all (list_all (\<lambda>t. t < n)) file"

text \<open>The ids of a virtual host, and a layout state that grows out of another by
  appending distinct ids of a given set, \<open>numNodes\<close> counting them in 32 bits.\<close>

definition vrange :: "DistGraph \<Rightarrow> nat \<Rightarrow> nat set" where
  "vrange g v =
     (if v < length (gid2host g) then {fst (gid2host g ! v)..<snd (gid2host g ! v)} else {})"

definition extends :: "layout \<Rightarrow> layout \<Rightarrow> nat set \<Rightarrow> bool" where
  "extends st st' A \<longleftrightarrow>
     (\<exists>xs. localToGlobalVector (fst st') = localToGlobalVector (fst st) @ xs \<and>
           distinct xs \<and> set xs \<subseteq> A \<and>
           numNodes (fst st') mod 2 ^ 32 = (numNodes (fst st) + length xs) mod 2 ^ 32 \<and>
           (numNodes (fst st) < 2 ^ 32 \<longrightarrow> numNodes (fst st') < 2 ^ 32))"

text \<open>The counters of the sources of every host of the grid row have the length of the
  range of that host, for every virtual row of this host.\<close>

definition sized :: "DistGraph \<Rightarrow> stats \<Rightarrow> bool" where
  "sized g stats \<longleftrightarrow>
     (\<forall>d < DecomposeFactor g. \<forall>i < numColumnHosts g.
        length (snd stats ! d ! i) =
          snd (gid2host g ! (leaderHostID g d + i)) - fst (gid2host g ! (leaderHostID g d + i)))"

text \<open>The virtual hosts whose nodes the three loops of the layout look at: the own ones,
  those of the other hosts of the grid rows of this host, and the remaining ones.\<close>

definition ownHosts :: "DistGraph \<Rightarrow> nat set" where
  "ownHosts g = {v. v mod numHosts g = hostID g}"

definition rowHosts :: "DistGraph \<Rightarrow> nat set" where
  "rowHosts g =
     {w. w mod numHosts g \<noteq> hostID g \<and>
         (\<exists>d < DecomposeFactor g. \<exists>i < numColumnHosts g. w = leaderHostID g d + i)}"

definition columnHosts :: "DistGraph \<Rightarrow> nat set" where
  "columnHosts g =
     {u. u mod numHosts g \<noteq> hostID g \<and>
         (\<forall>d < DecomposeFactor g. \<forall>i < numColumnHosts g. u \<noteq> leaderHostID g d + i)}"

text \<open>The ids that one round of the loop over the grid row, and one round of the loop
  over the grid column, can add.\<close>

definition mirrorRange :: "DistGraph \<Rightarrow> nat \<Rightarrow> nat \<Rightarrow> nat set" where
  "mirrorRange g d i =
     (if virtual2RealHost g (leaderHostID g d + i) = hostID g then {}
      else vrange g (leaderHostID g d + i))"

definition incomingRange :: "DistGraph \<Rightarrow> nat \<Rightarrow> nat set" where
  "incomingRange g i =
     (if virtual2RealHost g (incomingHost g i) = hostID g then {}
      else if columnBlocked g \<and> inOwnRows g (incomingHost g i) then {}
      else vrange g (incomingHost g i))"

text \<open>The shape of the counters of a host after its own inspection, what a statistics
  message of a host of the same grid row carries, and the counters whose columns in a
  set \<open>J\<close> have the lengths that \<open>sized\<close> asks for.\<close>

definition ownShaped :: "DistGraph \<Rightarrow> nat list list list \<Rightarrow> bool" where
  "ownShaped g numOutgoingEdges \<longleftrightarrow>
     length numOutgoingEdges = DecomposeFactor g \<and>
     (\<forall>d < DecomposeFactor g.
        length (numOutgoingEdges ! d) = numColumnHosts g \<and>
        (\<forall>i < numColumnHosts g. length (numOutgoingEdges ! d ! i) = ownedSize g d))"

definition goodMessage :: "DistGraph \<Rightarrow> stats_message \<Rightarrow> bool" where
  "goodMessage g m \<longleftrightarrow>
     fst m < numHosts g \<and> fst m \<noteq> hostID g \<and>
     fst m div numColumnHosts g = hostID g div numColumnHosts g \<and>
     (\<forall>d < DecomposeFactor g.
        length (fst (snd m) ! d) =
          snd (gid2host g ! (fst m + d * numHosts g)) - fst (gid2host g ! (fst m + d * numHosts g)))"

definition sizedOn :: "DistGraph \<Rightarrow> nat set \<Rightarrow> nat list list list \<Rightarrow> bool" where
  "sizedOn g J numOutgoingEdges \<longleftrightarrow>
     length numOutgoingEdges = DecomposeFactor g \<and>
     (\<forall>d < DecomposeFactor g.
        length (numOutgoingEdges ! d) = numColumnHosts g \<and>
        (\<forall>i \<in> J. i < numColumnHosts g \<longrightarrow>
           length (numOutgoingEdges ! d ! i) =
             snd (gid2host g ! (leaderHostID g d + i)) - fst (gid2host g ! (leaderHostID g d + i))))"


text \<open>The shape of the statistics of a host during its inspection: a bitset for each grid
  column and counters of the shape of \<open>ownShaped\<close>.\<close>

definition statShape :: "DistGraph \<Rightarrow> stats \<Rightarrow> bool" where
  "statShape g st \<longleftrightarrow> length (fst st) = numColumnHosts g \<and> ownShaped g (snd st)"
subsection \<open>Example hosts\<close>

text \<open>A host of a run on six hosts with decompose factor two, before its grid is
  computed, and the hosts of a two by two grid with their mirror tables.\<close>

definition host6 :: DistGraph where
  "host6 = \<lparr>columnBlocked = False, moreColumnHosts = False, DecomposeFactor = 2, ndebug = False,
     hostID = 0, numHosts = 6, numGlobalNodes = 0, gid2host = [], transposed = False,
     numRowHosts = 0, numColumnHosts = 0, numVirtualHosts = 0, dummyOutgoingNodes = 0,
     localToGlobalVector = [], globalToLocalMap = Map.empty, numNodes = 0, numEdges = 0,
     numOwned = 0, beginMaster = 0, numNodesWithEdges = 0, mirrorNodes = [], masterNodes = [],
     warnings = 0, strayBits = (\<lambda>k. False)\<rparr>"

definition grid4 :: "nat \<Rightarrow> DistGraph" where
  "grid4 h = \<lparr>columnBlocked = False, moreColumnHosts = False, DecomposeFactor = 1, ndebug = False,
     hostID = h, numHosts = 4, numGlobalNodes = 8, gid2host = [(0,2),(2,4),(4,6),(6,8)],
     transposed = False,
     numRowHosts = 2, numColumnHosts = 2, numVirtualHosts = 4, dummyOutgoingNodes = 0,
     localToGlobalVector = [], globalToLocalMap = Map.empty, numNodes = 0, numEdges = 0,
     numOwned = 0, beginMaster = 0, numNodesWithEdges = 0,
     mirrorNodes = [if h = 0 then [] else [0], if h = 1 then [] else [2],
                    if h = 2 then [] else [4], []],
     masterNodes = [], warnings = 0, strayBits = (\<lambda>k. False)\<rparr>"

text \<open>The grid a host computes, for reading the getters on an example.\<close>

definition gridOf :: "DistGraph \<Rightarrow> DistGraph" where
  "gridOf g = (case factorizeHosts g of Inl e \<Rightarrow> g | Inr g1 \<Rightarrow> g1)"

text \<open>A host of a run on two hosts with the decompose factor \<open>2 ^ 31\<close>: there are \<open>2 ^ 32\<close>
  virtual hosts.\<close>

definition wrapHost :: DistGraph where
  "wrapHost = newHost False False (2 ^ 31) True 0 2 [] 0"

text \<open>The chain of four nodes on a single host, in a release or a debug build.\<close>

definition chainFile :: graph_file where
  "chainFile = [[1], [2], [3], []]"

definition chainHost :: "bool \<Rightarrow> DistGraph" where
  "chainHost release = newHost False False 1 release 0 1 [(0, 4)] 4"

text \<open>What the first pass and the constructor leave behind: the prefix sums, and the
  counts, the node ends and the mirror table.\<close>

definition prefixSums :: "error + layout \<Rightarrow> error + nat list" where
  "prefixSums r = (case r of Inl e \<Rightarrow> Inl e | Inr st \<Rightarrow> Inr (snd st))"

definition summary ::
  "error + DistGraph \<times> csr \<Rightarrow> error + nat \<times> nat \<times> nat \<times> nat list \<times> nat list list" where
  "summary r =
     (case r of
        Inl e \<Rightarrow> Inl e
      | Inr sg \<Rightarrow> Inr (numNodes (fst sg), numOwned (fst sg), numEdges (fst sg),
                       edgeIndData (snd sg), mirrorNodes (fst sg)))"

text \<open>One host with decompose factor two: the virtual hosts own the ids 0, 1 and 2, 3.\<close>

definition decomposedHost :: DistGraph where
  "decomposedHost = newHost False False 2 True 0 1 [(0, 2), (2, 4)] 4"

text \<open>Four hosts, column blocked, with decompose factor two: eight virtual hosts of one
  node each, and the single edge from node 0 to node 6.\<close>

definition blockedHost :: "bool \<Rightarrow> nat \<Rightarrow> DistGraph" where
  "blockedHost release x =
     newHost True False 2 release x 4
       [(0, 1), (1, 2), (2, 3), (3, 4), (4, 5), (5, 6), (6, 7), (7, 8)] 8"

definition blockedFile :: graph_file where
  "blockedFile = [[6], [], [], [], [], [], [], []]"

text \<open>The complete directed graph on three nodes on a grid of two by two hosts, the last
  of which owns no node.\<close>

definition k3File :: graph_file where
  "k3File = [[1, 2], [0, 2], [0, 1]]"

definition k3Host :: "bool \<Rightarrow> nat \<Rightarrow> DistGraph" where
  "k3Host colBlocked x = newHost colBlocked False 1 True x 4 [(0, 1), (1, 2), (2, 3), (3, 3)] 3"

text \<open>One host with decompose factor two and \<open>2 ^ 32\<close> global nodes without edges: each
  virtual host owns \<open>2 ^ 31\<close> of them.\<close>

definition wideHost :: DistGraph where
  "wideHost = newHost False False 2 True 0 1 [(0, 2 ^ 31), (2 ^ 31, 2 ^ 32)] (2 ^ 32)"

definition wideFile :: graph_file where
  "wideFile = replicate (2 ^ 32) []"

section \<open>Properties\<close>

subsection \<open>factorizeHosts\<close>

lemma sqrt_down_spec:
  "sqrt_down n k * sqrt_down n k \<le> n \<and> sqrt_down n k \<le> k \<and>
   (\<forall>j. j \<le> k \<and> j * j \<le> n \<longrightarrow> j \<le> sqrt_down n k)"
proof (induction k)
  case 0
  show ?case by simp
next
  case (Suc k)
  show ?case
  proof (cases "Suc k * Suc k \<le> n")
    case True
    then show ?thesis by simp
  next
    case False
    have "j \<le> sqrt_down n k" if "j \<le> Suc k" "j * j \<le> n" for j
    proof -
      from that False have "j \<noteq> Suc k" by auto
      with that have "j \<le> k" by simp
      with that Suc show ?thesis by blast
    qed
    with False Suc show ?thesis by (simp add: le_SucI)
  qed
qed

lemma sqrt_trunc_sq: "sqrt_trunc n * sqrt_trunc n \<le> n"
  using sqrt_down_spec [of n n] by (simp add: sqrt_trunc_def)

lemma sqrt_trunc_greatest: "j * j \<le> n \<Longrightarrow> j \<le> sqrt_trunc n"
proof -
  assume a: "j * j \<le> n"
  have "j \<le> j * j" by (cases j) simp_all
  with a have "j \<le> n" by linarith
  with a sqrt_down_spec [of n n] show ?thesis by (simp add: sqrt_trunc_def)
qed

lemma sqrt_trunc_floor: "sqrt_trunc n = nat \<lfloor>sqrt (real n)\<rfloor>"
proof (rule antisym)
  have "real (sqrt_trunc n) * real (sqrt_trunc n) \<le> real n"
    using sqrt_trunc_sq [of n] by (metis of_nat_le_iff of_nat_mult)
  then have "real (sqrt_trunc n) \<le> sqrt (real n)"
    by (simp add: real_le_rsqrt power2_eq_square)
  then show "sqrt_trunc n \<le> nat \<lfloor>sqrt (real n)\<rfloor>"
    by (simp add: le_nat_floor)
next
  let ?f = "nat \<lfloor>sqrt (real n)\<rfloor>"
  have "real ?f \<le> sqrt (real n)" by simp
  then have "real ?f * real ?f \<le> sqrt (real n) * sqrt (real n)"
    by (intro mult_mono) simp_all
  then have "real (?f * ?f) \<le> real n" by simp
  then have "?f * ?f \<le> n" by (simp only: of_nat_le_iff)
  then show "?f \<le> sqrt_trunc n" by (rule sqrt_trunc_greatest)
qed

lemma sqrt_trunc_pos: "1 \<le> n \<Longrightarrow> 1 \<le> sqrt_trunc n"
  using sqrt_trunc_greatest [of 1 n] by simp

lemma shrinkColumns_spec:
  "1 \<le> c \<Longrightarrow>
   \<exists>k. shrinkColumns H c = Inr k \<and> 1 \<le> k \<and> k \<le> c \<and> k dvd H \<and>
       (\<forall>j. j dvd H \<and> j \<le> c \<longrightarrow> j \<le> k)"
proof (induction c)
  case 0
  then show ?case by simp
next
  case (Suc c)
  show ?case
  proof (cases "H mod Suc c = 0")
    case True
    then show ?thesis by (auto simp: mod_eq_0_iff_dvd)
  next
    case False
    then have nd: "\<not> Suc c dvd H" by (simp add: mod_eq_0_iff_dvd)
    have "c \<noteq> 0" using False by (cases c) auto
    then have "1 \<le> c" by simp
    from Suc.IH [OF this] obtain k where
      k: "shrinkColumns H c = Inr k" "1 \<le> k" "k \<le> c" "k dvd H"
         "\<forall>j. j dvd H \<and> j \<le> c \<longrightarrow> j \<le> k" by blast
    have "j \<le> k" if "j dvd H" "j \<le> Suc c" for j
    proof -
      from that nd have "j \<noteq> Suc c" by auto
      with that have "j \<le> c" by simp
      with that k show ?thesis by blast
    qed
    with False k show ?thesis by auto
  qed
qed

lemma spec_columns_eq:
  assumes "1 \<le> H" "k dvd H" "k \<le> sqrt_trunc H" "\<forall>j. j dvd H \<and> j \<le> sqrt_trunc H \<longrightarrow> j \<le> k"
  shows "spec_columns H = k"
proof -
  let ?S = "{j. j dvd H \<and> j \<le> nat \<lfloor>sqrt (real H)\<rfloor>}"
  have fin: "finite ?S" by simp
  have "k \<in> ?S" using assms by (simp add: sqrt_trunc_floor)
  moreover have "\<forall>j \<in> ?S. j \<le> k" using assms by (simp add: sqrt_trunc_floor)
  ultimately have "Max ?S = k" using fin by (intro Max_eqI) auto
  then show ?thesis by (simp add: spec_columns_def)
qed

subsection \<open>The grid of factorizeHosts, continued\<close>

lemma div_ge_self: "1 \<le> (k::nat) \<Longrightarrow> k * k \<le> H \<Longrightarrow> k \<le> H div k"
  by (simp add: less_eq_div_iff_mult_less_eq)

lemma shrinkColumns_two: "shrinkColumns 2 (sqrt_trunc 2) = Inr 1"
  by (simp add: sqrt_trunc_def numeral_2_eq_2)

text \<open>
  Claim C7, at two hosts with the decompose factor \<open>2 ^ 31\<close>. \<open>factorizeHosts\<close> finds one
  column and two rows, and \<open>numRowHosts *= DecomposeFactor\<close> is a product of \<open>unsigned\<close>
  values: \<open>2 * 2 ^ 31\<close> is 0 there. The grid has no row and one column, and rows times
  columns is not \<open>H * D = 2 ^ 32\<close>.
\<close>

theorem factorizeHosts_wraps_counterexample:
  "\<not> isl (factorizeHosts wrapHost) \<and>
   numRowHosts (gridOf wrapHost) = 0 \<and> numColumnHosts (gridOf wrapHost) = 1 \<and>
   numRowHosts (gridOf wrapHost) * numColumnHosts (gridOf wrapHost) \<noteq>
     numHosts wrapHost * DecomposeFactor wrapHost"
  by (simp add: gridOf_def wrapHost_def newHost_def factorizeHosts_def Let_def shrinkColumns_two)

text \<open>
  Claim C7, amended. For every host count \<open>H \<ge> 1\<close> and every decompose factor,
  \<open>factorizeHosts\<close> returns; the column count it finds is the largest divisor of \<open>H\<close> not
  exceeding \<open>\<lfloor>\<surd>H\<rfloor>\<close> (\<open>spec_columns H\<close>) and the row count is \<open>H\<close> divided by it, the two
  swapped when \<open>moreColumnHosts\<close> is set; the row count is then multiplied by the
  decompose factor in 32 bits. Before the swap the rows are at least the columns. On
  exit rows times columns is \<open>H * D\<close> modulo \<open>2 ^ 32\<close>, as is \<open>numVirtualHosts\<close>, and it is
  \<open>H * D\<close> itself whenever \<open>H * D < 2 ^ 32\<close>.
\<close>

theorem factorizeHosts_grid:
  assumes "1 \<le> numHosts g"
  shows "\<exists>g'. factorizeHosts g = Inr g' \<and>
     numVirtualHosts g' = (numHosts g * DecomposeFactor g) mod 2 ^ 32 \<and>
     spec_columns (numHosts g) dvd numHosts g \<and>
     spec_columns (numHosts g) \<le> numHosts g div spec_columns (numHosts g) \<and>
     numColumnHosts g' = (if moreColumnHosts g then numHosts g div spec_columns (numHosts g)
                          else spec_columns (numHosts g)) \<and>
     numRowHosts g' = ((if moreColumnHosts g then spec_columns (numHosts g)
                        else numHosts g div spec_columns (numHosts g)) * DecomposeFactor g) mod 2 ^ 32 \<and>
     (numRowHosts g' * numColumnHosts g') mod 2 ^ 32 = (numHosts g * DecomposeFactor g) mod 2 ^ 32 \<and>
     (numHosts g * DecomposeFactor g < 2 ^ 32 \<longrightarrow>
        numRowHosts g' * numColumnHosts g' = numHosts g * DecomposeFactor g)"
proof -
  let ?H = "numHosts g" and ?D = "DecomposeFactor g"
  from shrinkColumns_spec [where H = "?H" and c = "sqrt_trunc ?H", OF sqrt_trunc_pos [OF assms]] obtain k where
    k: "shrinkColumns ?H (sqrt_trunc ?H) = Inr k" "1 \<le> k" "k \<le> sqrt_trunc ?H" "k dvd ?H"
       "\<forall>j. j dvd ?H \<and> j \<le> sqrt_trunc ?H \<longrightarrow> j \<le> k" by blast
  have sc: "spec_columns ?H = k" by (rule spec_columns_eq [OF assms k(4) k(3) k(5)])
  have "k * k \<le> sqrt_trunc ?H * sqrt_trunc ?H" using k(3) by (simp add: mult_le_mono)
  then have kk: "k * k \<le> ?H" using sqrt_trunc_sq [of ?H] by linarith
  have le: "k \<le> ?H div k" using k(2) kk by (rule div_ge_self)
  have prod: "?H div k * k = ?H" using k(4) by simp
  have m1: "(((?H div k) * ?D) mod 2 ^ 32 * k) mod 2 ^ 32 = (?H * ?D) mod 2 ^ 32"
  proof -
    have "(((?H div k) * ?D) mod 2 ^ 32 * k) mod 2 ^ 32 = ((?H div k) * ?D * k) mod 2 ^ 32"
      by (simp add: mod_mult_left_eq)
    also have "(?H div k) * ?D * k = (?H div k * k) * ?D" by (simp add: ac_simps)
    finally show ?thesis by (simp only: prod)
  qed
  have m2: "((k * ?D) mod 2 ^ 32 * (?H div k)) mod 2 ^ 32 = (?H * ?D) mod 2 ^ 32"
  proof -
    have "((k * ?D) mod 2 ^ 32 * (?H div k)) mod 2 ^ 32 = (k * ?D * (?H div k)) mod 2 ^ 32"
      by (simp add: mod_mult_left_eq)
    also have "k * ?D * (?H div k) = (?H div k * k) * ?D" by (simp add: ac_simps)
    finally show ?thesis by (simp only: prod)
  qed
  have e1: "?H * ?D < 2 ^ 32 \<Longrightarrow> ((?H div k) * ?D) mod 2 ^ 32 * k = ?H * ?D"
  proof -
    assume b: "?H * ?D < 2 ^ 32"
    have "(?H div k) * ?D \<le> ?H * ?D" by (simp add: mult_le_mono1)
    with b have "(?H div k) * ?D < 2 ^ 32" by linarith
    then have "((?H div k) * ?D) mod 2 ^ 32 = (?H div k) * ?D" by (rule mod_less)
    then have "((?H div k) * ?D) mod 2 ^ 32 * k = (?H div k * k) * ?D" by (simp add: ac_simps)
    then show ?thesis by (simp only: prod)
  qed
  have e2: "?H * ?D < 2 ^ 32 \<Longrightarrow> (k * ?D) mod 2 ^ 32 * (?H div k) = ?H * ?D"
  proof -
    assume b: "?H * ?D < 2 ^ 32"
    have "k \<le> ?H" using k(4) assms by (simp add: dvd_imp_le)
    then have "k * ?D \<le> ?H * ?D" by (simp add: mult_le_mono1)
    with b have "k * ?D < 2 ^ 32" by linarith
    then have "(k * ?D) mod 2 ^ 32 = k * ?D" by (rule mod_less)
    then have "(k * ?D) mod 2 ^ 32 * (?H div k) = (?H div k * k) * ?D" by (simp add: ac_simps)
    then show ?thesis by (simp only: prod)
  qed
  show ?thesis
  proof (cases "moreColumnHosts g")
    case True
    have "factorizeHosts g = Inr (g\<lparr>numVirtualHosts := (?H * ?D) mod 2 ^ 32,
        numRowHosts := k, numColumnHosts := ?H div k, numRowHosts := (k * ?D) mod 2 ^ 32\<rparr>)"
      using k(1) le True by (simp add: factorizeHosts_def Let_def)
    then show ?thesis using True k(4) le m2 e2 by (simp add: sc)
  next
    case False
    have "factorizeHosts g = Inr (g\<lparr>numVirtualHosts := (?H * ?D) mod 2 ^ 32,
        numRowHosts := ?H div k, numColumnHosts := k, numRowHosts := (?H div k * ?D) mod 2 ^ 32\<rparr>)"
      using k(1) le False by (simp add: factorizeHosts_def Let_def)
    then show ?thesis using False k(4) le m1 e1 by (simp add: sc)
  qed
qed

theorem factorizeHosts_grid_witness:
  "1 \<le> numHosts host6 \<and>
   (\<exists>g'. factorizeHosts host6 = Inr g' \<and> numRowHosts g' * numColumnHosts g' = 12 \<and>
      numColumnHosts g' = spec_columns 6)"
  using factorizeHosts_grid [of host6] by (auto simp: host6_def)


lemma anyLocation_False:
  "anyLocation g p = Inr False \<longleftrightarrow>
     (gridRowID g (hostID g) = gridRowID g p \<or> gridColumnID g (hostID g) = gridColumnID g p)"
  by (auto simp: anyLocation_def)

subsection \<open>SyncPolicy\<close>

text \<open>
  Claim C4. On a host of a grid with at least one column, not transposed and not
  column blocked, with a nonempty shared-node list for the peer \<open>p\<close>:
  \<open>nothingToSend\<close> returns false under \<open>syncReduce\<close> with \<open>writeSource\<close> exactly when \<open>p\<close>
  is in the grid row of this host, with \<open>writeDestination\<close> exactly when it is in the
  same grid column, and with \<open>writeAny\<close> exactly when it is in the same row or the same
  column; under \<open>syncBroadcast\<close> the same holds for \<open>readSource\<close>, \<open>readDestination\<close>
  and \<open>readAny\<close>. The list is \<open>mirrorNodes[p]\<close> for a reduce and \<open>masterNodes[p]\<close> for a
  broadcast.
\<close>

theorem nothingToSend_table:
  assumes "\<not> transposed g" "\<not> columnBlocked g" "0 < numColumnHosts g"
  shows "(p < length (mirrorNodes g) \<and> mirrorNodes g ! p \<noteq> [] \<longrightarrow>
           (nothingToSend g p syncReduce writeSource r = Inr False
              \<longleftrightarrow> gridRowID g (hostID g) = gridRowID g p) \<and>
           (nothingToSend g p syncReduce writeDestination r = Inr False
              \<longleftrightarrow> gridColumnID g (hostID g) = gridColumnID g p) \<and>
           (nothingToSend g p syncReduce writeAny r = Inr False
              \<longleftrightarrow> gridRowID g (hostID g) = gridRowID g p \<or>
                  gridColumnID g (hostID g) = gridColumnID g p)) \<and>
         (p < length (masterNodes g) \<and> masterNodes g ! p \<noteq> [] \<longrightarrow>
           (nothingToSend g p syncBroadcast w readSource = Inr False
              \<longleftrightarrow> gridRowID g (hostID g) = gridRowID g p) \<and>
           (nothingToSend g p syncBroadcast w readDestination = Inr False
              \<longleftrightarrow> gridColumnID g (hostID g) = gridColumnID g p) \<and>
           (nothingToSend g p syncBroadcast w readAny = Inr False
              \<longleftrightarrow> gridRowID g (hostID g) = gridRowID g p \<or>
                  gridColumnID g (hostID g) = gridColumnID g p))"
  using assms
  by (simp add: nothingToSend_def sharedDecision_def isNotCommunicationPartner_def
      anyLocation_False)

text \<open>
  Claim C10. When the shared-node list for the peer \<open>p\<close> is empty, \<open>nothingToSend\<close> and
  \<open>nothingToRecv\<close> return true, whatever the grid position, \<open>columnBlocked\<close>, the
  orientation of the grid, the transposition and the locations: \<open>mirrorNodes[p]\<close>
  decides \<open>nothingToSend\<close> under a reduce and \<open>nothingToRecv\<close> under a broadcast,
  \<open>masterNodes[p]\<close> decides the other two.
\<close>

theorem empty_shared_nothing:
  "(p < length (mirrorNodes g) \<and> mirrorNodes g ! p = [] \<longrightarrow>
      nothingToSend g p syncReduce w r = Inr True \<and>
      nothingToRecv g p syncBroadcast w r = Inr True) \<and>
   (p < length (masterNodes g) \<and> masterNodes g ! p = [] \<longrightarrow>
      nothingToSend g p syncBroadcast w r = Inr True \<and>
      nothingToRecv g p syncReduce w r = Inr True)"
  by (simp add: nothingToSend_def nothingToRecv_def sharedDecision_def)

lemma isNotCommunicationPartner_sym:
  assumes "numColumnHosts a = numColumnHosts b" "transposed a = transposed b"
    "ndebug a = ndebug b"
  shows "isNotCommunicationPartner a (hostID b) st w r =
         isNotCommunicationPartner b (hostID a) st w r"
  using assms
  by (cases w; cases r)
     (auto simp: isNotCommunicationPartner_def anyLocation_def gridRowID_def gridColumnID_def)

text \<open>
  Claim C3. For all hosts \<open>X\<close> and \<open>Y\<close> of one run, after the exchange that fills
  \<open>masterNodes\<close>, and for every sync type, write location and read location:
  \<open>nothingToSend(Y, \<dots>)\<close> evaluated on \<open>X\<close> and \<open>nothingToRecv(X, \<dots>)\<close> evaluated on \<open>Y\<close>
  have the same outcome, so one returns true if and only if the other does.
\<close>

theorem sync_symmetry:
  assumes "sameRun cluster" "X < length cluster" "Y < length cluster"
  shows "nothingToSend (setup_communication cluster X) Y st w r =
         nothingToRecv (setup_communication cluster Y) X st w r"
proof -
  let ?a = "setup_communication cluster X" and ?b = "setup_communication cluster Y"
  have ida: "hostID ?a = X" and idb: "hostID ?b = Y"
    using assms by (simp_all add: sameRun_def setup_communication_def)
  have same: "numColumnHosts ?a = numColumnHosts ?b" "transposed ?a = transposed ?b"
    "ndebug ?a = ndebug ?b" "columnBlocked ?a = columnBlocked ?b"
    using assms by (simp_all add: sameRun_def setup_communication_def)
  have len: "length (mirrorNodes ?a) = length cluster" "length (mirrorNodes ?b) = length cluster"
    "length (masterNodes ?a) = length cluster" "length (masterNodes ?b) = length cluster"
    using assms by (simp_all add: sameRun_def setup_communication_def)
  have recip: "masterNodes ?b ! X = mirrorNodes ?a ! Y" "masterNodes ?a ! Y = mirrorNodes ?b ! X"
    using assms by (simp_all add: setup_communication_def)
  have part: "isNotCommunicationPartner ?a Y st w r = isNotCommunicationPartner ?b X st w r"
    using isNotCommunicationPartner_sym [OF same(1) same(2) same(3), of st w r]
    by (simp only: ida idb)
  show ?thesis
    using assms(2,3) len recip part same(4)
    by (cases st) (simp_all add: nothingToSend_def nothingToRecv_def sharedDecision_def)
qed

subsection \<open>Persistence\<close>

text \<open>
  Claim C9. Reading with \<open>boostDeSerializeLocalGraph\<close>, into any host, the archive
  that \<open>boostSerializeLocalGraph\<close> wrote for a partition succeeds, consumes the
  archive, and restores \<open>numNodes\<close>, \<open>numRowHosts\<close>, \<open>numColumnHosts\<close>,
  \<open>localToGlobalVector\<close> and \<open>globalToLocalMap\<close> to the values of the partition.
\<close>

theorem serialize_roundtrip:
  "\<exists>g'. boostDeSerializeLocalGraph fresh (boostSerializeLocalGraph g []) = Some (g', []) \<and>
      numNodes g' = numNodes g \<and> numRowHosts g' = numRowHosts g \<and>
      numColumnHosts g' = numColumnHosts g \<and>
      localToGlobalVector g' = localToGlobalVector g \<and>
      globalToLocalMap g' = globalToLocalMap g"
  by (simp add: boostDeSerializeLocalGraph_def boostSerializeLocalGraph_def)

theorem nothingToSend_table_witness:
  "\<not> transposed (grid4 0) \<and> \<not> columnBlocked (grid4 0) \<and> 0 < numColumnHosts (grid4 0) \<and>
   1 < length (mirrorNodes (grid4 0)) \<and> mirrorNodes (grid4 0) ! 1 \<noteq> [] \<and>
   nothingToSend (grid4 0) 1 syncReduce writeSource readAny = Inr False \<and>
   gridRowID (grid4 0) (hostID (grid4 0)) = gridRowID (grid4 0) 1 \<and>
   nothingToSend (grid4 0) 1 syncReduce writeDestination readAny \<noteq> Inr False"
  using nothingToSend_table [of "grid4 0" 1 readAny]
  by (simp add: grid4_def gridRowID_def gridColumnID_def)

theorem empty_shared_nothing_witness:
  "3 < length (mirrorNodes (grid4 0)) \<and> mirrorNodes (grid4 0) ! 3 = [] \<and>
   nothingToSend (grid4 0) 3 syncReduce writeAny readAny = Inr True \<and>
   nothingToRecv (grid4 0) 3 syncBroadcast writeAny readAny = Inr True"
  using empty_shared_nothing [of 3 "grid4 0" writeAny readAny]
  by (simp add: grid4_def)

theorem sync_symmetry_witness:
  "sameRun (map grid4 [0, 1, 2, 3]) \<and>
   nothingToSend (setup_communication (map grid4 [0, 1, 2, 3]) 1) 0 syncReduce writeSource readAny
     = Inr False \<and>
   nothingToRecv (setup_communication (map grid4 [0, 1, 2, 3]) 0) 1 syncReduce writeSource readAny
     = Inr False"
proof -
  have s: "sameRun (map grid4 [0, 1, 2, 3])"
    by (simp add: sameRun_def grid4_def less_Suc_eq numeral_nat all_conj_distrib)
  have "nothingToSend (setup_communication (map grid4 [0, 1, 2, 3]) 1) 0 syncReduce writeSource readAny
     = Inr False"
    by (simp add: nothingToSend_def sharedDecision_def setup_communication_def grid4_def
        isNotCommunicationPartner_def gridRowID_def)
  with s sync_symmetry [OF s, of 1 0 syncReduce writeSource readAny] show ?thesis by simp
qed

subsection \<open>Evaluation on concrete hosts\<close>

text \<open>Equations for the recursions on numerals, and the definitions that an evaluation
  of the grid, of the two passes and of the constructor unfolds.\<close>

lemma sqrt_down_numeral:
  "sqrt_down n (numeral k) =
     (if numeral k * numeral k \<le> n then numeral k else sqrt_down n (pred_numeral k))"
  by (simp add: numeral_eq_Suc)

lemma sqrt_down_1: "sqrt_down n (Suc 0) = (if 1 \<le> n then 1 else 0)"
  by simp

lemma shrinkColumns_numeral:
  "shrinkColumns H (numeral k) =
     (if H mod numeral k \<noteq> 0 then shrinkColumns H (pred_numeral k) else Inr (numeral k))"
  by (simp add: numeral_eq_Suc)

lemma shrinkColumns_1: "shrinkColumns H (Suc 0) = Inr 1"
  by simp

lemma replicate_numeral: "replicate (numeral k) x = x # replicate (pred_numeral k) x"
  by (simp add: numeral_eq_Suc)

lemma list_update_numeral: "(x # xs)[numeral k := v] = x # xs[pred_numeral k := v]"
  by (simp add: numeral_eq_Suc)

lemma receiveStats_numeral:
  "receiveStats g (numeral k) inbox st =
     (case inbox of [] \<Rightarrow> Inl NoMessage
      | m # inbox' \<Rightarrow>
         receiveStats g (pred_numeral k) inbox'
          ((fst st)[fst m mod numColumnHosts g := snd (snd m)],
           map (\<lambda>d. (snd st ! d)[fst m mod numColumnHosts g := fst (snd m) ! d])
             [0..<DecomposeFactor g]))"
  by (cases inbox) (auto simp: numeral_eq_Suc Let_def)

lemmas eval_list = upt_conv_Cons replicate_numeral list_update_numeral

lemmas eval_grid = factorizeHosts_def newHost_def sqrt_trunc_def sqrt_down_numeral sqrt_down_1
  shrinkColumns_numeral shrinkColumns_1 Let_def

lemmas eval_block = getHostID_def getBlockID_def getColumnHostIDOfBlock_def getColumnHostID_def
  getColumnIndex_def sub64_def add32_def gridRowID_def gridColumnID_def virtual2RealHost_def
  rangeOf_def columnBlockSize_def ownedSize_def isOwned_def isLocal_def G2L_def

lemmas eval_inspect = inspect_def inspectRange_def inspectNode_def inspectEdge_def
  initialStats_def

lemmas eval_exchange = statsMessages_def sentStats_def statsInbox_def receiveStats_numeral
  bitwise_or_def orReduce_def testBit_def

lemmas eval_layout = createNode_def addEdges_def ownedNodes_def dummyOutgoing_def mirrorStep_def
  leaderHostID_def outgoingMirrorsOf_def outgoingMirrors_def incomingStep_def incomingHost_def
  inOwnRows_def incomingMirrorsOf_def setNodesWithEdges_def layoutNodes_def sumOwned_def
  loadStatistics_def firstStatistics_def

lemmas eval_edges = allocateFrom_def fixEndEdge_def edge_begin_def edge_end_def constructEdge_def
  routeEdge_def appendRecords_def loadNode_def flushBuffers_def loadRange_def
  loadEdgesFromFile_def deserializeEdge_def processRecord_def mirrorsOfRange_def
  outgoingMirrorNodes_def incomingHostOf_def incomingMirrorNodes_def fillMirrorNodes_def
  fixEndEdges_def setBeginMaster_def firstPass_def localPass_def sentEdges_def edgeInbox_def
  constructDistGraph_def


lemmas eval_run = summary_def constructedEdges_def globalEdges_def edgeHost_def gridOf_def
  localEdges_def
subsection \<open>The tiny chain on one host\<close>

text \<open>
  Claim C6, at the input of the claim: the chain on four nodes, one host, decompose
  factor one. The vector of prefix sums that \<open>loadStatistics\<close> builds is not
  \<open>[0, 1, 2, 3, 3]\<close>.
\<close>

theorem tiny_chain_prefix_counterexample:
  "prefixSums (firstStatistics (chainHost True) chainFile) \<noteq> Inr [0, 1, 2, 3, 3]"
  by (simp add: prefixSums_def chainHost_def chainFile_def eval_grid eval_block eval_inspect
      eval_exchange eval_layout eval_list)

text \<open>
  Claim C6, amended. On the chain on four nodes with one host and decompose factor one,
  in a release and in a debug build, the construction yields \<open>numNodes = 4\<close>,
  \<open>numOwned = 4\<close> and \<open>numEdges = 3\<close>; the vector of prefix sums is \<open>[1, 2, 3, 3]\<close>, the
  end of the edges of each node, of length \<open>numNodes\<close> and with \<open>numEdges\<close> as its last
  entry, and these are the node ends of the local graph; the mirror list of the only
  host is empty.
\<close>

theorem tiny_chain:
  "prefixSums (firstStatistics (chainHost release) chainFile) = Inr [1, 2, 3, 3] \<and>
   summary (constructDistGraph (chainHost release) chainFile) = Inr (4, 4, 3, [1, 2, 3, 3], [[]])"
  by (simp add: prefixSums_def summary_def chainHost_def chainFile_def eval_grid eval_block
      eval_inspect eval_exchange eval_layout eval_list eval_edges)

subsection \<open>Layout: how the loops extend the local index\<close>

text \<open>Every loop of the layout appends ids of the range it runs over, each at most once.\<close>

lemma foldE_invariant:
  assumes "foldE f xs s = Inr s'" "P s"
    and "\<And>x t t'. x \<in> set xs \<Longrightarrow> P t \<Longrightarrow> f x t = Inr t' \<Longrightarrow> P t'"
  shows "P s'"
  using assms
proof (induction xs arbitrary: s)
  case Nil
  then show ?case by simp
next
  case (Cons x xs)
  from Cons.prems(1) obtain t where t: "f x s = Inr t" "foldE f xs t = Inr s'"
    by (auto split: sum.splits)
  have "P t" using Cons.prems(3) [of x s t] Cons.prems(2) t(1) by simp
  then show ?case
  proof (rule Cons.IH [OF t(2)])
    fix y u u' assume "y \<in> set xs" "P u" "f y u = Inr u'"
    then show "P u'" using Cons.prems(3) [of y u u'] by simp
  qed
qed

lemma extends_refl: "extends st st A"
  by (simp add: extends_def)

lemma extends_mono: "extends st st' A \<Longrightarrow> A \<subseteq> B \<Longrightarrow> extends st st' B"
  by (auto simp: extends_def)

lemma extends_trans:
  assumes "extends st st' A" "extends st' st'' B" "A \<inter> B = {}"
  shows "extends st st'' (A \<union> B)"
proof -
  from assms(1) obtain xs where xs:
    "localToGlobalVector (fst st') = localToGlobalVector (fst st) @ xs" "distinct xs" "set xs \<subseteq> A"
    "numNodes (fst st') mod 2 ^ 32 = (numNodes (fst st) + length xs) mod 2 ^ 32"
    "numNodes (fst st) < 2 ^ 32 \<longrightarrow> numNodes (fst st') < 2 ^ 32"
    unfolding extends_def by blast
  from assms(2) obtain ys where ys:
    "localToGlobalVector (fst st'') = localToGlobalVector (fst st') @ ys" "distinct ys" "set ys \<subseteq> B"
    "numNodes (fst st'') mod 2 ^ 32 = (numNodes (fst st') + length ys) mod 2 ^ 32"
    "numNodes (fst st') < 2 ^ 32 \<longrightarrow> numNodes (fst st'') < 2 ^ 32"
    unfolding extends_def by blast
  have d: "distinct (xs @ ys)" using xs(2,3) ys(2,3) assms(3) by auto
  have "numNodes (fst st'') mod 2 ^ 32 = (numNodes (fst st') mod 2 ^ 32 + length ys) mod 2 ^ 32"
    using ys(4) by (simp add: mod_add_left_eq)
  also have "\<dots> = ((numNodes (fst st) + length xs) mod 2 ^ 32 + length ys) mod 2 ^ 32"
    by (simp only: xs(4))
  also have "\<dots> = (numNodes (fst st) + length (xs @ ys)) mod 2 ^ 32"
    by (simp add: mod_add_left_eq add.assoc)
  finally have n: "numNodes (fst st'') mod 2 ^ 32 = (numNodes (fst st) + length (xs @ ys)) mod 2 ^ 32" .
  have "localToGlobalVector (fst st'') = localToGlobalVector (fst st) @ (xs @ ys)"
    using xs(1) ys(1) by simp
  moreover have "set (xs @ ys) \<subseteq> A \<union> B" using xs(3) ys(3) by auto
  ultimately show ?thesis unfolding extends_def using d n xs(5) ys(5) by blast
qed

lemma foldE_extends:
  assumes "foldE f xs st = Inr st'"
    and "\<And>x t t'. x \<in> set xs \<Longrightarrow> f x t = Inr t' \<Longrightarrow> extends t t' (R x)"
    and "distinct xs"
    and "\<And>x y. x \<in> set xs \<Longrightarrow> y \<in> set xs \<Longrightarrow> x \<noteq> y \<Longrightarrow> R x \<inter> R y = {}"
  shows "extends st st' (\<Union>x\<in>set xs. R x)"
  using assms
proof (induction xs arbitrary: st)
  case Nil
  then show ?case by (simp add: extends_refl)
next
  case (Cons x xs)
  from Cons.prems(1) obtain t where t: "f x st = Inr t" "foldE f xs t = Inr st'"
    by (auto split: sum.splits)
  have e1: "extends st t (R x)" using Cons.prems(2) t(1) by simp
  have e2: "extends t st' (\<Union>y\<in>set xs. R y)"
    using Cons.IH [OF t(2)] Cons.prems(2,3,4) by simp
  have "R x \<inter> (\<Union>y\<in>set xs. R y) = {}"
  proof -
    have "R x \<inter> R y = {}" if "y \<in> set xs" for y
    proof -
      from that Cons.prems(3) have "x \<noteq> y" by auto
      with that Cons.prems(4) [of x y] show ?thesis by simp
    qed
    then show ?thesis by blast
  qed
  from extends_trans [OF e1 e2 this] show ?case by simp
qed

lemma createNode_extends:
  assumes "createNode g src st = Inr st'"
  shows "extends st st' {src}"
proof -
  from assms have
    "localToGlobalVector (fst st') = localToGlobalVector (fst st) @ [src]"
    "numNodes (fst st') = (numNodes (fst st) + 1) mod 2 ^ 32"
    by (auto simp: createNode_def Let_def split: if_splits)
  then show ?thesis unfolding extends_def
    by (intro exI [of _ "[src]"]) simp
qed

lemma extends_pre:
  assumes "extends st1 st' A"
    "localToGlobalVector (fst st1) = localToGlobalVector (fst st)"
    "numNodes (fst st1) = numNodes (fst st)"
  shows "extends st st' A"
  using assms by (simp add: extends_def)

lemma ownedLoop_extends:
  "ownedLoop g src ns st = Inr st' \<Longrightarrow> extends st st' {src..<src + length ns}"
proof (induction ns arbitrary: src st)
  case Nil
  then show ?case by (simp add: extends_refl)
next
  case (Cons n ns)
  from Cons.prems obtain t where
    t: "createNode g src (addEdges n st) = Inr t" "ownedLoop g (Suc src) ns t = Inr st'"
    by (auto split: sum.splits)
  have "extends (addEdges n st) t {src}" using t(1) by (rule createNode_extends)
  then have e1: "extends st t {src}" by (rule extends_pre) (simp_all add: addEdges_def)
  have e2: "extends t st' {Suc src..<Suc src + length ns}" using Cons.IH [OF t(2)] .
  have "extends st st' ({src} \<union> {Suc src..<Suc src + length ns})"
    using e1 e2 by (rule extends_trans) simp
  then show ?case by (rule extends_mono) auto
qed

lemma mirrorStep_extends:
  assumes "mirrorStep g bits i src n st = Inr st'"
  shows "extends st st' {src}"
proof (cases "n > 0")
  case True
  with assms have "createNode g src (addEdges n st) = Inr st'" by (simp add: mirrorStep_def)
  then have "extends (addEdges n st) st' {src}" by (rule createNode_extends)
  then show ?thesis by (rule extends_pre) (simp_all add: addEdges_def)
next
  case False
  show ?thesis
  proof (cases "st' = st")
    case True
    then show ?thesis by (simp add: extends_refl)
  next
    case ne: False
    with assms False have d: "dummyOutgoing g src st = Inr st'"
      by (auto simp: mirrorStep_def split: if_splits)
    then consider
        "createNode g src ((fst st)\<lparr>dummyOutgoingNodes := dummyOutgoingNodes (fst st) + 1\<rparr>, snd st) = Inr st'"
      | "createNode g src ((fst st)\<lparr>warnings := warnings (fst st) + 1\<rparr>, snd st) = Inr st'"
      by (auto simp: dummyOutgoing_def split: if_splits)
    then show ?thesis
    proof cases
      case 1
      then have "extends ((fst st)\<lparr>dummyOutgoingNodes := dummyOutgoingNodes (fst st) + 1\<rparr>, snd st) st' {src}"
        by (rule createNode_extends)
      then show ?thesis by (rule extends_pre) simp_all
    next
      case 2
      then have "extends ((fst st)\<lparr>warnings := warnings (fst st) + 1\<rparr>, snd st) st' {src}"
        by (rule createNode_extends)
      then show ?thesis by (rule extends_pre) simp_all
    qed
  qed
qed

lemma mirrorLoop_extends:
  "mirrorLoop g bits i src ns st = Inr st' \<Longrightarrow> extends st st' {src..<src + length ns}"
proof (induction ns arbitrary: src st)
  case Nil
  then show ?case by (simp add: extends_refl)
next
  case (Cons n ns)
  from Cons.prems obtain t where
    t: "mirrorStep g bits i src n st = Inr t" "mirrorLoop g bits i (Suc src) ns t = Inr st'"
    by (auto split: sum.splits)
  have e1: "extends st t {src}" using t(1) by (rule mirrorStep_extends)
  have e2: "extends t st' {Suc src..<Suc src + length ns}" using Cons.IH [OF t(2)] .
  have "extends st st' ({src} \<union> {Suc src..<Suc src + length ns})"
    using e1 e2 by (rule extends_trans) simp
  then show ?case by (rule extends_mono) auto
qed

lemma incomingStep_extends:
  assumes "incomingStep g bits dst st = Inr st'"
  shows "extends st st' {dst}"
proof (cases "st' = st")
  case True
  then show ?thesis by (simp add: extends_refl)
next
  case False
  with assms have "createNode g dst st = Inr st'"
    by (auto simp: incomingStep_def split: if_splits)
  then show ?thesis by (rule createNode_extends)
qed

lemma incomingRange_extends:
  assumes "foldE (incomingStep g bits) [a..<b] st = Inr st'"
  shows "extends st st' {a..<b}"
proof -
  have "extends st st' (\<Union>x\<in>set [a..<b]. {x})"
    using assms by (rule foldE_extends) (auto intro: incomingStep_extends)
  then show ?thesis by (rule extends_mono) auto
qed

subsection \<open>Layout: ranges of the block map and rows of the grid\<close>

lemma blockMap_le: "blockMap r n \<Longrightarrow> k < length r \<Longrightarrow> fst (r ! k) \<le> snd (r ! k)"
  by (simp add: blockMap_def list_all_iff)

lemma blockMap_next: "blockMap r n \<Longrightarrow> Suc k < length r \<Longrightarrow> snd (r ! k) = fst (r ! Suc k)"
  by (simp add: blockMap_def list_all_iff)

lemma blockMap_mono:
  assumes "blockMap r n"
  shows "j < k \<Longrightarrow> k < length r \<Longrightarrow> snd (r ! j) \<le> fst (r ! k)"
proof (induction k)
  case 0
  then show ?case by simp
next
  case (Suc k)
  show ?case
  proof (cases "j = k")
    case True
    then show ?thesis using blockMap_next [OF assms, of k] Suc.prems by simp
  next
    case False
    with Suc.prems have "j < k" "k < length r" by simp_all
    then have "snd (r ! j) \<le> fst (r ! k)" by (rule Suc.IH)
    also have "\<dots> \<le> snd (r ! k)" using assms \<open>k < length r\<close> by (rule blockMap_le)
    also have "\<dots> = fst (r ! Suc k)" using assms Suc.prems(2) by (rule blockMap_next)
    finally show ?thesis .
  qed
qed

lemma blockMap_upper:
  assumes "blockMap r n" "k < length r"
  shows "snd (r ! k) \<le> n"
proof -
  from assms(1) have ne: "r \<noteq> []" and l: "snd (last r) = n" by (simp_all add: blockMap_def)
  have last: "last r = r ! (length r - 1)" using ne by (rule last_conv_nth)
  show ?thesis
  proof (cases "k = length r - 1")
    case True
    then show ?thesis using l last by simp
  next
    case False
    with assms(2) have lt: "k < length r - 1" "length r - 1 < length r" by simp_all
    have "snd (r ! k) \<le> fst (r ! (length r - 1))" using assms(1) lt by (rule blockMap_mono)
    also have "\<dots> \<le> snd (r ! (length r - 1))" using assms(1) lt(2) by (rule blockMap_le)
    finally show ?thesis using l last by simp
  qed
qed

lemma vrange_disjoint:
  assumes "blockMap (gid2host g) n" "v \<noteq> w"
  shows "vrange g v \<inter> vrange g w = {}"
proof -
  have aux: "vrange g a \<inter> vrange g b = {}" if "a < b" for a b
  proof (cases "b < length (gid2host g)")
    case True
    with that have "snd (gid2host g ! a) \<le> fst (gid2host g ! b)"
      using blockMap_mono [OF assms(1)] by simp
    then show ?thesis by (auto simp: vrange_def)
  next
    case False
    then show ?thesis by (simp add: vrange_def)
  qed
  from assms(2) consider "v < w" | "w < v" by linarith
  then show ?thesis
  proof cases
    case 1
    then show ?thesis by (rule aux)
  next
    case 2
    then have "vrange g w \<inter> vrange g v = {}" by (rule aux)
    then show ?thesis by blast
  qed
qed

lemma vrange_bound:
  assumes "blockMap (gid2host g) n"
  shows "vrange g v \<subseteq> {0..<n}"
  using blockMap_upper [OF assms, of v] by (auto simp: vrange_def)

lemma vranges_disjoint:
  assumes "blockMap (gid2host g) n" "V \<inter> W = {}"
  shows "(\<Union>v\<in>V. vrange g v) \<inter> (\<Union>w\<in>W. vrange g w) = {}"
proof -
  have "vrange g v \<inter> vrange g w = {}" if "v \<in> V" "w \<in> W" for v w
  proof -
    from that assms(2) have "v \<noteq> w" by auto
    with assms(1) show ?thesis by (rule vrange_disjoint)
  qed
  then show ?thesis by blast
qed

lemma vrange_span:
  assumes "blockMap (gid2host g) n" "rangeOf g v = Inr r"
  shows "{fst r..<fst r + (snd (gid2host g ! v) - fst (gid2host g ! v))} = vrange g v"
proof -
  from assms(2) have v: "v < length (gid2host g)" and r: "r = gid2host g ! v"
    by (auto simp: rangeOf_def split: if_splits)
  have "fst (gid2host g ! v) \<le> snd (gid2host g ! v)" using assms(1) v by (rule blockMap_le)
  then show ?thesis using v r by (simp add: vrange_def)
qed

lemma vrange_whole:
  assumes "rangeOf g v = Inr r"
  shows "{fst r..<snd r} = vrange g v"
  using assms by (auto simp: rangeOf_def vrange_def split: if_splits)

lemma leader_plus:
  assumes "numColumnHosts g dvd numHosts g"
  shows "leaderHostID g d = (hostID g div numColumnHosts g) * numColumnHosts g + d * numHosts g"
proof -
  let ?C = "numColumnHosts g" and ?H = "numHosts g"
  have dv: "?C dvd d * ?H" using assms by simp
  have "(hostID g + d * ?H) div ?C = hostID g div ?C + (d * ?H) div ?C"
    using dv by (rule div_plus_div_distrib_dvd_right)
  then have "leaderHostID g d = (hostID g div ?C) * ?C + ((d * ?H) div ?C) * ?C"
    by (simp add: leaderHostID_def gridRowID_def add_mult_distrib)
  then show ?thesis using dv by simp
qed

lemma leader_col:
  assumes "numColumnHosts g dvd numHosts g"
  shows "leaderHostID g d + gridColumnID g (hostID g) = hostID g + d * numHosts g"
  using leader_plus [OF assms, of d] by (simp add: gridColumnID_def)

lemma row_in_range:
  assumes "numColumnHosts g dvd numHosts g" "0 < numColumnHosts g" "hostID g < numHosts g"
    "i < numColumnHosts g"
  shows "(hostID g div numColumnHosts g) * numColumnHosts g + i < numHosts g"
proof -
  let ?C = "numColumnHosts g" and ?H = "numHosts g"
  from assms(1) obtain q where q: "?H = ?C * q" by (auto simp: dvd_def)
  have "hostID g div ?C < q" using assms(2,3) q by (simp add: div_less_iff_less_mult mult.commute)
  then have "Suc (hostID g div ?C) \<le> q" by simp
  then have "Suc (hostID g div ?C) * ?C \<le> q * ?C" by (rule mult_le_mono1)
  then show ?thesis using assms(4) q by (simp add: mult.commute)
qed

subsection \<open>Layout: own nodes and outgoing mirrors\<close>

lemma ownedNodes_extends:
  assumes bm: "blockMap (gid2host g) n" and dv: "numColumnHosts g dvd numHosts g"
    and pos: "0 < numColumnHosts g" and sz: "sized g stats" and d: "d < DecomposeFactor g"
    and run: "ownedNodes g stats d st = Inr st'"
  shows "extends st st' (vrange g (hostID g + d * numHosts g))"
proof -
  let ?v = "hostID g + d * numHosts g" and ?col = "gridColumnID g (hostID g)"
  from run obtain r where r: "rangeOf g ?v = Inr r"
    and loop: "ownedLoop g (fst r) (snd stats ! d ! ?col) st = Inr st'"
    by (auto simp: ownedNodes_def split: sum.splits if_splits)
  have "?col < numColumnHosts g" using pos by (simp add: gridColumnID_def)
  with sz d have "length (snd stats ! d ! ?col) =
      snd (gid2host g ! (leaderHostID g d + ?col)) - fst (gid2host g ! (leaderHostID g d + ?col))"
    by (simp add: sized_def)
  then have len: "length (snd stats ! d ! ?col) = snd (gid2host g ! ?v) - fst (gid2host g ! ?v)"
    by (simp only: leader_col [OF dv])
  have "extends st st' {fst r..<fst r + length (snd stats ! d ! ?col)}"
    using loop by (rule ownedLoop_extends)
  then show ?thesis by (simp only: len vrange_span [OF bm r])
qed

lemma outgoingMirrorsOf_extends:
  assumes bm: "blockMap (gid2host g) n"
    and sz: "sized g stats" and d: "d < DecomposeFactor g" and i: "i < numColumnHosts g"
    and run: "outgoingMirrorsOf g stats bits d i st = Inr st'"
  shows "extends st st' (mirrorRange g d i)"
proof (cases "virtual2RealHost g (leaderHostID g d + i) = hostID g")
  case True
  with run have "st' = st" by (simp add: outgoingMirrorsOf_def)
  with True show ?thesis by (simp add: extends_refl)
next
  case False
  let ?v = "leaderHostID g d + i"
  from run False obtain r where r: "rangeOf g ?v = Inr r"
    and loop: "mirrorLoop g bits i (fst r) (snd stats ! d ! i) st = Inr st'"
    by (auto simp: outgoingMirrorsOf_def split: sum.splits if_splits)
  from sz d i have len: "length (snd stats ! d ! i) = snd (gid2host g ! ?v) - fst (gid2host g ! ?v)"
    by (simp add: sized_def)
  have "extends st st' {fst r..<fst r + length (snd stats ! d ! i)}"
    using loop by (rule mirrorLoop_extends)
  then have "extends st st' (vrange g ?v)" by (simp only: len vrange_span [OF bm r])
  with False show ?thesis by (simp add: mirrorRange_def)
qed

lemma mirrorRange_subset: "mirrorRange g d i \<subseteq> vrange g (leaderHostID g d + i)"
  by (simp add: mirrorRange_def)

lemma mirrorRange_rowHosts:
  assumes "d < DecomposeFactor g" "i < numColumnHosts g"
  shows "mirrorRange g d i \<subseteq> (\<Union>w\<in>rowHosts g. vrange g w)"
proof (cases "virtual2RealHost g (leaderHostID g d + i) = hostID g")
  case True
  then show ?thesis by (simp add: mirrorRange_def)
next
  case False
  with assms have "leaderHostID g d + i \<in> rowHosts g"
    by (auto simp: rowHosts_def virtual2RealHost_def)
  with False show ?thesis by (auto simp: mirrorRange_def)
qed

lemma outgoingMirrors_extends:
  assumes bm: "blockMap (gid2host g) n"
    and sz: "sized g stats" and d: "d < DecomposeFactor g"
    and run: "outgoingMirrors g stats bits d st = Inr st'"
  shows "extends st st' (\<Union>i\<in>set [0..<numColumnHosts g]. mirrorRange g d i)"
proof (rule foldE_extends [where f = "outgoingMirrorsOf g stats bits d"])
  show "foldE (outgoingMirrorsOf g stats bits d) [0..<numColumnHosts g] st = Inr st'"
    using run by (simp add: outgoingMirrors_def)
next
  fix i t t' assume "i \<in> set [0..<numColumnHosts g]" "outgoingMirrorsOf g stats bits d i t = Inr t'"
  then show "extends t t' (mirrorRange g d i)"
    using outgoingMirrorsOf_extends [OF bm sz d, of i bits t t'] by simp
next
  show "distinct [0..<numColumnHosts g]" by simp
next
  fix i j assume "i \<in> set [0..<numColumnHosts g]" "j \<in> set [0..<numColumnHosts g]" "i \<noteq> j"
  then have "leaderHostID g d + i \<noteq> leaderHostID g d + j" by simp
  with bm have "vrange g (leaderHostID g d + i) \<inter> vrange g (leaderHostID g d + j) = {}"
    by (rule vrange_disjoint)
  then show "mirrorRange g d i \<inter> mirrorRange g d j = {}"
    using mirrorRange_subset [of g d i] mirrorRange_subset [of g d j] by blast
qed

lemma leader_unique:
  assumes dv: "numColumnHosts g dvd numHosts g" and pos: "0 < numColumnHosts g"
    and hid: "hostID g < numHosts g"
    and i: "i < numColumnHosts g" and j: "j < numColumnHosts g"
    and eq: "leaderHostID g d + i = leaderHostID g e + j"
  shows "d = e"
proof -
  let ?a = "(hostID g div numColumnHosts g) * numColumnHosts g"
  have a: "?a + i < numHosts g" "?a + j < numHosts g"
    using row_in_range [OF dv pos hid] i j by simp_all
  define x where "x = ?a + i"
  define y where "y = ?a + j"
  from eq have "x + d * numHosts g = y + e * numHosts g"
    by (simp add: leader_plus [OF dv] x_def y_def)
  then have "(x + d * numHosts g) div numHosts g = (y + e * numHosts g) div numHosts g"
    by (simp only:)
  moreover have "x < numHosts g" "y < numHosts g" using a by (simp_all add: x_def y_def)
  ultimately show ?thesis by simp
qed

lemma allOutgoing_extends:
  assumes bm: "blockMap (gid2host g) n" and dv: "numColumnHosts g dvd numHosts g"
    and pos: "0 < numColumnHosts g" and hid: "hostID g < numHosts g"
    and sz: "sized g stats"
    and run: "foldE (outgoingMirrors g stats bits) [0..<DecomposeFactor g] st = Inr st'"
  shows "extends st st' (\<Union>w\<in>rowHosts g. vrange g w)"
proof -
  let ?R = "\<lambda>d. \<Union>i\<in>set [0..<numColumnHosts g]. mirrorRange g d i"
  have "extends st st' (\<Union>d\<in>set [0..<DecomposeFactor g]. ?R d)"
    using run
  proof (rule foldE_extends)
    fix d t t' assume "d \<in> set [0..<DecomposeFactor g]" "outgoingMirrors g stats bits d t = Inr t'"
    then show "extends t t' (?R d)"
      using outgoingMirrors_extends [OF bm sz, of d bits t t'] by simp
  next
    show "distinct [0..<DecomposeFactor g]" by simp
  next
    fix d e assume de: "d \<in> set [0..<DecomposeFactor g]" "e \<in> set [0..<DecomposeFactor g]" "d \<noteq> e"
    have "mirrorRange g d i \<inter> mirrorRange g e j = {}"
      if "i < numColumnHosts g" "j < numColumnHosts g" for i j
    proof -
      have "leaderHostID g d + i \<noteq> leaderHostID g e + j"
        using leader_unique [OF dv pos hid that, of d e] de(3) by blast
      with bm have "vrange g (leaderHostID g d + i) \<inter> vrange g (leaderHostID g e + j) = {}"
        by (rule vrange_disjoint)
      then show ?thesis
        using mirrorRange_subset [of g d i] mirrorRange_subset [of g e j] by blast
    qed
    then have "False" if "i < numColumnHosts g" "j < numColumnHosts g"
      "x \<in> mirrorRange g d i" "x \<in> mirrorRange g e j" for i j x
      using that by blast
    then show "?R d \<inter> ?R e = {}" by auto
  qed
  moreover have "(\<Union>d\<in>set [0..<DecomposeFactor g]. ?R d) \<subseteq> (\<Union>w\<in>rowHosts g. vrange g w)"
  proof (rule UN_least)
    fix d assume "d \<in> set [0..<DecomposeFactor g]"
    then have d: "d < DecomposeFactor g" by simp
    show "?R d \<subseteq> (\<Union>w\<in>rowHosts g. vrange g w)"
    proof (rule UN_least)
      fix i assume "i \<in> set [0..<numColumnHosts g]"
      then have "i < numColumnHosts g" by simp
      with d show "mirrorRange g d i \<subseteq> (\<Union>w\<in>rowHosts g. vrange g w)"
        by (rule mirrorRange_rowHosts)
    qed
  qed
  ultimately show ?thesis by (rule extends_mono)
qed

lemma allOwned_extends:
  assumes bm: "blockMap (gid2host g) n" and dv: "numColumnHosts g dvd numHosts g"
    and pos: "0 < numColumnHosts g" and hid: "hostID g < numHosts g"
    and sz: "sized g stats"
    and run: "foldE (ownedNodes g stats) [0..<DecomposeFactor g] st = Inr st'"
  shows "extends st st' (\<Union>v\<in>ownHosts g. vrange g v)"
proof -
  let ?R = "\<lambda>d. vrange g (hostID g + d * numHosts g)"
  have "extends st st' (\<Union>d\<in>set [0..<DecomposeFactor g]. ?R d)"
    using run
  proof (rule foldE_extends)
    fix d t t' assume "d \<in> set [0..<DecomposeFactor g]" "ownedNodes g stats d t = Inr t'"
    then show "extends t t' (?R d)"
      using ownedNodes_extends [OF bm dv pos sz, of d t t'] by simp
  next
    show "distinct [0..<DecomposeFactor g]" by simp
  next
    fix d e :: nat assume "d \<noteq> e"
    then have "hostID g + d * numHosts g \<noteq> hostID g + e * numHosts g" using hid by simp
    with bm show "?R d \<inter> ?R e = {}" by (rule vrange_disjoint)
  qed
  moreover have "(\<Union>d\<in>set [0..<DecomposeFactor g]. ?R d) \<subseteq> (\<Union>v\<in>ownHosts g. vrange g v)"
  proof (rule UN_least)
    fix d
    have "hostID g + d * numHosts g \<in> ownHosts g" using hid by (simp add: ownHosts_def)
    then show "?R d \<subseteq> (\<Union>v\<in>ownHosts g. vrange g v)" by blast
  qed
  ultimately show ?thesis by (rule extends_mono)
qed

subsection \<open>Layout: incoming mirrors and the three loops together\<close>

lemma incomingMirrorsOf_extends:
  assumes run: "incomingMirrorsOf g bits i st = Inr st'"
  shows "extends st st' (incomingRange g i)"
proof (cases "virtual2RealHost g (incomingHost g i) = hostID g \<or>
              (columnBlocked g \<and> inOwnRows g (incomingHost g i))")
  case True
  with run have "st' = st" by (auto simp: incomingMirrorsOf_def split: if_splits)
  then show ?thesis by (simp add: extends_refl)
next
  case False
  with run obtain r where r: "rangeOf g (incomingHost g i) = Inr r"
    and loop: "foldE (incomingStep g bits) [fst r..<snd r] st = Inr st'"
    by (auto simp: incomingMirrorsOf_def split: sum.splits if_splits)
  have "extends st st' {fst r..<snd r}" using loop by (rule incomingRange_extends)
  then have "extends st st' (vrange g (incomingHost g i))" by (simp only: vrange_whole [OF r])
  with False show ?thesis by (auto simp: incomingRange_def)
qed

lemma incomingRange_subset: "incomingRange g i \<subseteq> vrange g (incomingHost g i)"
  by (simp add: incomingRange_def)

lemma incomingHost_inj:
  assumes "0 < numColumnHosts g" "i \<noteq> j"
  shows "incomingHost g i \<noteq> incomingHost g j"
  using assms by (simp add: incomingHost_def)

lemma leader_mod: "(leaderHostID g d + j) mod numColumnHosts g = j mod numColumnHosts g"
  by (simp add: leaderHostID_def)

lemma incomingRange_columnHosts:
  assumes dv: "numColumnHosts g dvd numHosts g" and pos: "0 < numColumnHosts g"
    and hid: "hostID g < numHosts g"
  shows "incomingRange g i \<subseteq> (\<Union>u\<in>columnHosts g. vrange g u)"
proof (cases "virtual2RealHost g (incomingHost g i) = hostID g \<or>
              (columnBlocked g \<and> inOwnRows g (incomingHost g i))")
  case True
  then show ?thesis by (auto simp: incomingRange_def)
next
  case False
  let ?u = "incomingHost g i"
  from False have real: "?u mod numHosts g \<noteq> hostID g" by (simp add: virtual2RealHost_def)
  have other: "?u \<noteq> leaderHostID g d + j" if d: "d < DecomposeFactor g" and j: "j < numColumnHosts g"
    for d j
  proof
    assume eq: "?u = leaderHostID g d + j"
    show False
    proof (cases "columnBlocked g")
      case True
      with False have "\<not> inOwnRows g ?u" by simp
      moreover have "inOwnRows g ?u"
        unfolding inOwnRows_def list_ex_iff using d j eq by (intro bexI [of _ d]) simp_all
      ultimately show False by simp
    next
      case nb: False
      then have u: "?u = i * numColumnHosts g + gridColumnID g (hostID g)"
        by (simp add: incomingHost_def)
      have "?u mod numColumnHosts g = gridColumnID g (hostID g)"
        by (simp add: u gridColumnID_def)
      moreover have "?u mod numColumnHosts g = j" using eq j by (simp add: leader_mod)
      ultimately have "j = gridColumnID g (hostID g)" by simp
      with eq have "?u = hostID g + d * numHosts g" by (simp add: leader_col [OF dv])
      with hid have "?u mod numHosts g = hostID g" by simp
      with real show False by simp
    qed
  qed
  from real other have "?u \<in> columnHosts g" by (auto simp: columnHosts_def)
  then show ?thesis using incomingRange_subset [of g i] by blast
qed

lemma allIncoming_extends:
  assumes bm: "blockMap (gid2host g) n" and dv: "numColumnHosts g dvd numHosts g"
    and pos: "0 < numColumnHosts g" and hid: "hostID g < numHosts g"
    and run: "foldE (incomingMirrorsOf g bits) [0..<numRowHosts g] st = Inr st'"
  shows "extends st st' (\<Union>u\<in>columnHosts g. vrange g u)"
proof -
  have "extends st st' (\<Union>i\<in>set [0..<numRowHosts g]. incomingRange g i)"
    using run
  proof (rule foldE_extends)
    fix i t t' assume "incomingMirrorsOf g bits i t = Inr t'"
    then show "extends t t' (incomingRange g i)" by (rule incomingMirrorsOf_extends)
  next
    show "distinct [0..<numRowHosts g]" by simp
  next
    fix i j :: nat assume "i \<noteq> j"
    with pos have "incomingHost g i \<noteq> incomingHost g j" by (rule incomingHost_inj)
    with bm have "vrange g (incomingHost g i) \<inter> vrange g (incomingHost g j) = {}"
      by (rule vrange_disjoint)
    then show "incomingRange g i \<inter> incomingRange g j = {}"
      using incomingRange_subset [of g i] incomingRange_subset [of g j] by blast
  qed
  moreover have "(\<Union>i\<in>set [0..<numRowHosts g]. incomingRange g i)
      \<subseteq> (\<Union>u\<in>columnHosts g. vrange g u)"
    using incomingRange_columnHosts [OF dv pos hid] by blast
  ultimately show ?thesis by (rule extends_mono)
qed

lemma layoutNodes_extends:
  assumes bm: "blockMap (gid2host g) n" and dv: "numColumnHosts g dvd numHosts g"
    and pos: "0 < numColumnHosts g" and hid: "hostID g < numHosts g"
    and sz: "sized g stats"
    and run: "layoutNodes g stats bits = Inr st'"
  shows "extends (g\<lparr>dummyOutgoingNodes := 0, numNodes := 0, numEdges := 0\<rparr>, []) st' {0..<n}"
proof -
  let ?st0 = "(g\<lparr>dummyOutgoingNodes := 0, numNodes := 0, numEdges := 0\<rparr>, [])"
  let ?A1 = "\<Union>v\<in>ownHosts g. vrange g v" and ?A2 = "\<Union>w\<in>rowHosts g. vrange g w"
  let ?A3 = "\<Union>u\<in>columnHosts g. vrange g u"
  from run obtain st1 st2 where
    r1: "foldE (ownedNodes g stats) [0..<DecomposeFactor g] ?st0 = Inr st1" and
    r2: "foldE (outgoingMirrors g stats bits) [0..<DecomposeFactor g] st1 = Inr st2" and
    r3: "foldE (incomingMirrorsOf g bits) [0..<numRowHosts g] (setNodesWithEdges st2) = Inr st'"
    by (auto simp: layoutNodes_def split: sum.splits)
  have e1: "extends ?st0 st1 ?A1" using bm dv pos hid sz r1 by (rule allOwned_extends)
  have e2: "extends st1 st2 ?A2" using bm dv pos hid sz r2 by (rule allOutgoing_extends)
  have "extends (setNodesWithEdges st2) st' ?A3" using bm dv pos hid r3 by (rule allIncoming_extends)
  then have e3: "extends st2 st' ?A3"
    by (rule extends_pre) (simp_all add: setNodesWithEdges_def)
  have d12: "?A1 \<inter> ?A2 = {}"
    using bm by (rule vranges_disjoint) (auto simp: ownHosts_def rowHosts_def)
  have d123: "(?A1 \<union> ?A2) \<inter> ?A3 = {}"
  proof -
    have "?A1 \<inter> ?A3 = {}"
      using bm by (rule vranges_disjoint) (auto simp: ownHosts_def columnHosts_def)
    moreover have "?A2 \<inter> ?A3 = {}"
      using bm by (rule vranges_disjoint) (auto simp: rowHosts_def columnHosts_def)
    ultimately show ?thesis by blast
  qed
  have "extends ?st0 st' ((?A1 \<union> ?A2) \<union> ?A3)"
    using extends_trans [OF e1 e2 d12] e3 d123 by (rule extends_trans)
  moreover have "(?A1 \<union> ?A2) \<union> ?A3 \<subseteq> {0..<n}"
    using vrange_bound [OF bm] by blast
  ultimately show ?thesis by (rule extends_mono)
qed

lemma layoutNodes_distinct:
  assumes bm: "blockMap (gid2host g) n" and dv: "numColumnHosts g dvd numHosts g"
    and pos: "0 < numColumnHosts g" and hid: "hostID g < numHosts g"
    and sz: "sized g stats"
    and fresh: "localToGlobalVector g = []"
    and run: "layoutNodes g stats bits = Inr st'"
  shows "distinct (localToGlobalVector (fst st')) \<and>
         set (localToGlobalVector (fst st')) \<subseteq> {0..<n} \<and>
         numNodes (fst st') = length (localToGlobalVector (fst st')) mod 2 ^ 32"
proof -
  from layoutNodes_extends [OF bm dv pos hid sz run] fresh obtain xs where
    xs: "localToGlobalVector (fst st') = xs" "distinct xs" "set xs \<subseteq> {0..<n}"
      "numNodes (fst st') mod 2 ^ 32 = length xs mod 2 ^ 32" "numNodes (fst st') < 2 ^ 32"
    by (auto simp: extends_def)
  from xs(4,5) have "numNodes (fst st') = length xs mod 2 ^ 32" by simp
  with xs(1,2,3) show ?thesis by simp
qed

subsection \<open>Exchange: the counters after the inspection\<close>

lemma ownShaped_initial: "ownShaped g (snd (initialStats g))"
  by (simp add: ownShaped_def initialStats_def)

lemma ownShaped_update:
  assumes "ownShaped g nOE"
  shows "ownShaped g (nOE[d := (nOE ! d)[h := (nOE ! d ! h)[k := v]]])"
proof -
  let ?n = "nOE[d := (nOE ! d)[h := (nOE ! d ! h)[k := v]]]"
  from assms have len: "length nOE = DecomposeFactor g"
    and rows: "\<And>e. e < DecomposeFactor g \<Longrightarrow> length (nOE ! e) = numColumnHosts g"
    and cells: "\<And>e i. e < DecomposeFactor g \<Longrightarrow> i < numColumnHosts g \<Longrightarrow>
                  length (nOE ! e ! i) = ownedSize g e"
    by (simp_all add: ownShaped_def)
  have row: "?n ! e = (if e = d then (nOE ! d)[h := (nOE ! d ! h)[k := v]] else nOE ! e)"
    if "e < DecomposeFactor g" for e
    using that len by (simp add: nth_list_update)
  have r: "length (?n ! e) = numColumnHosts g" if "e < DecomposeFactor g" for e
    using that row [OF that] rows [OF that] by auto
  have c: "length (?n ! e ! i) = ownedSize g e"
    if e: "e < DecomposeFactor g" and i: "i < numColumnHosts g" for e i
  proof (cases "e = d")
    case True
    have "((nOE ! d)[h := (nOE ! d ! h)[k := v]]) ! i =
            (if i = h then (nOE ! d ! h)[k := v] else nOE ! d ! i)"
      using i rows [OF e] True by (simp add: nth_list_update)
    then show ?thesis using row [OF e] True cells [OF e i] by auto
  next
    case False
    then show ?thesis using row [OF e] cells [OF e i] by simp
  qed
  show ?thesis unfolding ownShaped_def using len r c by simp
qed

lemma inspectEdge_shaped:
  assumes "inspectEdge g d rowOffset src dst st = Inr st'" "ownShaped g (snd st)"
  shows "ownShaped g (snd st')"
proof -
  from assms(1) obtain h k v where
    "snd st' = (snd st)[d := (snd st ! d)[h := (snd st ! d ! h)[k := v]]]"
    by (auto simp: inspectEdge_def Let_def split: if_splits)
  with assms(2) show ?thesis by (simp add: ownShaped_update)
qed

lemma inspectNode_shaped:
  assumes "inspectNode g file d rowOffset src st = Inr st'" "ownShaped g (snd st)"
  shows "ownShaped g (snd st')"
proof -
  from assms(1) have "foldE (inspectEdge g d rowOffset src) (file ! src) st = Inr st'"
    by (simp add: inspectNode_def split: if_splits)
  then show ?thesis using assms(2)
    by (rule foldE_invariant) (rule inspectEdge_shaped)
qed

lemma inspectRange_shaped:
  assumes "inspectRange g file d st = Inr st'" "ownShaped g (snd st)"
  shows "ownShaped g (snd st')"
proof -
  from assms(1) obtain r where
    "foldE (inspectNode g file d (fst r)) [fst r..<snd r] st = Inr st'"
    by (auto simp: inspectRange_def split: sum.splits)
  then show ?thesis using assms(2)
    by (rule foldE_invariant) (rule inspectNode_shaped)
qed

lemma inspect_shaped:
  assumes "inspect g file = Inr st"
  shows "ownShaped g (snd st)"
proof -
  from assms have "foldE (inspectRange g file) [0..<DecomposeFactor g] (initialStats g) = Inr st"
    by (simp add: inspect_def)
  then show ?thesis using ownShaped_initial
    by (rule foldE_invariant) (rule inspectRange_shaped)
qed

subsection \<open>Exchange: the messages a host receives\<close>

lemma statsMessages_member:
  assumes "(t, m) \<in> set (statsMessages g st)"
  shows "\<exists>i < numColumnHosts g.
           t = gridRowID g (hostID g) * numColumnHosts g + i \<and> t \<noteq> hostID g \<and>
           m = (hostID g, map (\<lambda>d. snd st ! d ! i) [0..<DecomposeFactor g], fst st ! i)"
  using assms by (auto simp: statsMessages_def)

lemma statsInbox_member:
  assumes "m \<in> set (statsInbox g file)"
  shows "\<exists>x < numHosts g. \<exists>st. inspect (g\<lparr>hostID := x\<rparr>) file = Inr st \<and>
           (hostID g, m) \<in> set (statsMessages (g\<lparr>hostID := x\<rparr>) st)"
proof -
  from assms obtain x t where x: "x < numHosts g" and t: "(t, m) \<in> set (sentStats g file x)"
    and tid: "t = hostID g"
    by (auto simp: statsInbox_def)
  from t obtain st where "inspect (g\<lparr>hostID := x\<rparr>) file = Inr st"
    "(t, m) \<in> set (statsMessages (g\<lparr>hostID := x\<rparr>) st)"
    by (cases "inspect (g\<lparr>hostID := x\<rparr>) file") (auto simp: sentStats_def)
  with x tid show ?thesis by blast
qed

lemma statsInbox_good:
  assumes pos: "0 < numColumnHosts g" and m: "m \<in> set (statsInbox g file)"
  shows "goodMessage g m"
proof -
  let ?C = "numColumnHosts g"
  from statsInbox_member [OF m] obtain x st where x: "x < numHosts g"
    and ins: "inspect (g\<lparr>hostID := x\<rparr>) file = Inr st"
    and mem: "(hostID g, m) \<in> set (statsMessages (g\<lparr>hostID := x\<rparr>) st)" by blast
  from statsMessages_member [OF mem] obtain i where i: "i < ?C"
    and tgt: "hostID g = (x div ?C) * ?C + i" and ne: "hostID g \<noteq> x"
    and mm: "m = (x, map (\<lambda>d. snd st ! d ! i) [0..<DecomposeFactor g], fst st ! i)"
    by (auto simp: gridRowID_def)
  have row: "x div ?C = hostID g div ?C" using tgt i by simp
  have sh: "ownShaped (g\<lparr>hostID := x\<rparr>) (snd st)" using ins by (rule inspect_shaped)
  have "length (fst (snd m) ! d) =
      snd (gid2host g ! (x + d * numHosts g)) - fst (gid2host g ! (x + d * numHosts g))"
    if d: "d < DecomposeFactor g" for d
  proof -
    have "fst (snd m) ! d = snd st ! d ! i" using d by (simp add: mm)
    moreover have "length (snd st ! d ! i) = ownedSize (g\<lparr>hostID := x\<rparr>) d"
      using sh d i by (simp add: ownShaped_def)
    ultimately show ?thesis by (simp add: ownedSize_def)
  qed
  then show ?thesis using x ne row by (simp add: goodMessage_def mm)
qed

lemma filter_add_le1:
  "distinct js \<Longrightarrow> length (filter (\<lambda>i. a + i = (t::nat)) js) \<le> 1"
proof (induction js)
  case Nil
  then show ?case by simp
next
  case (Cons j js)
  show ?case
  proof (cases "a + j = t")
    case True
    have "filter (\<lambda>i. a + i = t) js = []"
    proof -
      have "a + i \<noteq> t" if "i \<in> set js" for i
      proof
        assume "a + i = t"
        with True have "i = j" by simp
        with that Cons.prems show False by simp
      qed
      then show ?thesis by (simp add: filter_empty_conv)
    qed
    with True show ?thesis by simp
  next
    case False
    with Cons show ?thesis by simp
  qed
qed

lemma sentTo_le1:
  "length (filter (\<lambda>m. fst m = t) (sentStats g file x)) \<le> 1"
proof (cases "inspect (g\<lparr>hostID := x\<rparr>) file")
  case (Inl e)
  then show ?thesis by (simp add: sentStats_def)
next
  case (Inr st)
  let ?a = "gridRowID (g\<lparr>hostID := x\<rparr>) x * numColumnHosts g"
  let ?js = "filter (\<lambda>i. ?a + i \<noteq> x) [0..<numColumnHosts g]"
  have "length (filter (\<lambda>m. fst m = t) (sentStats g file x)) =
        length (filter (\<lambda>i. ?a + i = t) ?js)"
    using Inr by (simp add: sentStats_def statsMessages_def filter_map comp_def)
  also have "\<dots> \<le> 1" by (rule filter_add_le1) simp
  finally show ?thesis .
qed

lemma sentTo_sender:
  assumes "m \<in> set (map snd (filter (\<lambda>m. fst m = t) (sentStats g file x)))"
  shows "fst m = x"
proof -
  from assms obtain st where "(t, m) \<in> set (statsMessages (g\<lparr>hostID := x\<rparr>) st)"
    by (cases "inspect (g\<lparr>hostID := x\<rparr>) file") (auto simp: sentStats_def)
  from statsMessages_member [OF this] show ?thesis by auto
qed

lemma senders_upto:
  "distinct (map fst (concat (map (\<lambda>x. map snd (filter (\<lambda>m. fst m = t) (sentStats g file x)))
                        [0..<n]))) \<and>
   set (map fst (concat (map (\<lambda>x. map snd (filter (\<lambda>m. fst m = t) (sentStats g file x)))
                        [0..<n]))) \<subseteq> {0..<n}"
proof (induction n)
  case 0
  show ?case by simp
next
  case (Suc n)
  let ?F = "\<lambda>x. map snd (filter (\<lambda>m. fst m = t) (sentStats g file x))"
  have one: "length (?F n) \<le> 1" using sentTo_le1 [of t g "file" n] by simp
  have snd_n: "set (map fst (?F n)) \<subseteq> {n}" using sentTo_sender [of _ t g "file" n] by auto
  have dn: "distinct (map fst (?F n))"
  proof (cases "?F n")
    case Nil
    then show ?thesis by simp
  next
    case (Cons a as)
    with one have "as = []" by simp
    with Cons show ?thesis by simp
  qed
  define A where "A = map fst (concat (map ?F [0..<n]))"
  define B where "B = map fst (?F n)"
  have split: "map fst (concat (map ?F [0..<Suc n])) = A @ B"
    by (simp add: A_def B_def)
  have A: "distinct A" "set A \<subseteq> {0..<n}" using Suc by (simp_all add: A_def)
  have B: "distinct B" "set B \<subseteq> {n}" using dn snd_n by (simp_all add: B_def)
  have "set A \<inter> set B = {}" using A(2) B(2) by fastforce
  then have "distinct (A @ B)" using A(1) B(1) by simp
  moreover have "set (A @ B) \<subseteq> {0..<Suc n}" using A(2) B(2) by fastforce
  ultimately show ?case by (simp only: split)
qed

lemma statsInbox_distinct: "distinct (map fst (statsInbox g file))"
  using senders_upto [of "hostID g" g "file" "numHosts g"] by (simp add: statsInbox_def)

subsection \<open>Exchange: the counters after the receive loop\<close>

lemma sizedOn_own:
  assumes dv: "numColumnHosts g dvd numHosts g" and ins: "inspect g file = Inr own"
  shows "sizedOn g {gridColumnID g (hostID g)} (snd own)"
proof -
  have sh: "ownShaped g (snd own)" using ins by (rule inspect_shaped)
  have "length (snd own ! d ! gridColumnID g (hostID g)) =
          snd (gid2host g ! (leaderHostID g d + gridColumnID g (hostID g))) -
          fst (gid2host g ! (leaderHostID g d + gridColumnID g (hostID g)))"
    if "d < DecomposeFactor g" "gridColumnID g (hostID g) < numColumnHosts g" for d
    using sh that by (simp add: ownShaped_def leader_col [OF dv] ownedSize_def)
  then show ?thesis using sh by (simp add: sizedOn_def ownShaped_def)
qed

lemma sizedOn_file:
  assumes dv: "numColumnHosts g dvd numHosts g" and pos: "0 < numColumnHosts g"
    and sz: "sizedOn g J nOE" and good: "goodMessage g (x, vecs, bits)"
  shows "sizedOn g (insert (x mod numColumnHosts g) J)
           (map (\<lambda>d. (nOE ! d)[x mod numColumnHosts g := vecs ! d]) [0..<DecomposeFactor g])"
proof -
  let ?C = "numColumnHosts g" and ?h = "x mod numColumnHosts g"
  let ?n = "map (\<lambda>d. (nOE ! d)[?h := vecs ! d]) [0..<DecomposeFactor g]"
  from sz have rows: "\<And>d. d < DecomposeFactor g \<Longrightarrow> length (nOE ! d) = ?C"
    and cells: "\<And>d i. d < DecomposeFactor g \<Longrightarrow> i \<in> J \<Longrightarrow> i < ?C \<Longrightarrow>
        length (nOE ! d ! i) =
          snd (gid2host g ! (leaderHostID g d + i)) - fst (gid2host g ! (leaderHostID g d + i))"
    by (simp_all add: sizedOn_def)
  from good have row: "x div ?C = hostID g div ?C"
    and vec: "\<And>d. d < DecomposeFactor g \<Longrightarrow> length (vecs ! d) =
        snd (gid2host g ! (x + d * numHosts g)) - fst (gid2host g ! (x + d * numHosts g))"
    by (simp_all add: goodMessage_def)
  have h: "?h < ?C" using pos by simp
  have lead: "leaderHostID g d + ?h = x + d * numHosts g" for d
  proof -
    have "leaderHostID g d + ?h = (x div ?C) * ?C + ?h + d * numHosts g"
      by (simp add: leader_plus [OF dv] row)
    then show ?thesis by simp
  qed
  have nth: "?n ! d = (nOE ! d)[?h := vecs ! d]" if "d < DecomposeFactor g" for d
    using that by simp
  have r: "length (?n ! d) = ?C" if "d < DecomposeFactor g" for d
    using that rows [OF that] by simp
  have c: "length (?n ! d ! i) =
        snd (gid2host g ! (leaderHostID g d + i)) - fst (gid2host g ! (leaderHostID g d + i))"
    if d: "d < DecomposeFactor g" and i: "i \<in> insert ?h J" "i < ?C" for d i
  proof (cases "i = ?h")
    case True
    have "?n ! d ! ?h = vecs ! d" using d h rows [OF d] by simp
    then show ?thesis using True vec [OF d] by (simp only: lead)
  next
    case False
    with i have "i \<in> J" by simp
    moreover have "?n ! d ! i = nOE ! d ! i" using d False by simp
    ultimately show ?thesis using cells [OF d _ i(2)] by simp
  qed
  show ?thesis unfolding sizedOn_def using r c by simp
qed

lemma receiveStats_sized:
  assumes dv: "numColumnHosts g dvd numHosts g" and pos: "0 < numColumnHosts g"
  shows "receiveStats g k inbox st = Inr st' \<Longrightarrow> \<forall>m\<in>set inbox. goodMessage g m \<Longrightarrow>
         sizedOn g J (snd st) \<Longrightarrow>
         k \<le> length inbox \<and>
         sizedOn g (J \<union> (\<lambda>m. fst m mod numColumnHosts g) ` set (take k inbox)) (snd st')"
proof (induction k arbitrary: inbox st J)
  case 0
  then show ?case by simp
next
  case (Suc k)
  from Suc.prems(1) obtain m rest where inbox: "inbox = m # rest"
    by (cases inbox) simp_all
  obtain x vecs bits where m: "m = (x, vecs, bits)" by (cases m)
  let ?h = "x mod numColumnHosts g"
  let ?st1 = "((fst st)[?h := bits],
               map (\<lambda>d. (snd st ! d)[?h := vecs ! d]) [0..<DecomposeFactor g])"
  from Suc.prems(1) have run: "receiveStats g k rest ?st1 = Inr st'"
    by (simp add: inbox m Let_def)
  have good: "goodMessage g (x, vecs, bits)" using Suc.prems(2) by (simp add: inbox m)
  have s1: "sizedOn g (insert ?h J) (snd ?st1)"
    using sizedOn_file [OF dv pos Suc.prems(3) good] by simp
  have rest: "\<forall>m\<in>set rest. goodMessage g m" using Suc.prems(2) by (simp add: inbox)
  from Suc.IH [OF run rest s1] have
    "k \<le> length rest"
    "sizedOn g (insert ?h J \<union> (\<lambda>m. fst m mod numColumnHosts g) ` set (take k rest)) (snd st')"
    by simp_all
  then show ?case by (simp add: inbox m)
qed

lemma row_peers_all:
  assumes dv: "numColumnHosts g dvd numHosts g" and pos: "0 < numColumnHosts g"
    and dist: "distinct (map fst ms)" and good: "\<forall>m\<in>set ms. goodMessage g m"
    and len: "length ms = numColumnHosts g - 1"
    and i: "i < numColumnHosts g" "i \<noteq> gridColumnID g (hostID g)"
  shows "i \<in> (\<lambda>m. fst m mod numColumnHosts g) ` set ms"
proof -
  let ?C = "numColumnHosts g" and ?col = "gridColumnID g (hostID g)"
  let ?a = "(hostID g div ?C) * ?C"
  let ?S = "(\<lambda>j. ?a + j) ` ({0..<?C} - {?col})"
  have sub: "set (map fst ms) \<subseteq> ?S"
  proof
    fix x assume "x \<in> set (map fst ms)"
    then obtain m where m: "m \<in> set ms" "x = fst m" by auto
    with good have g: "x \<noteq> hostID g" "x div ?C = hostID g div ?C"
      by (auto simp: goodMessage_def)
    have x: "x = ?a + x mod ?C" using g(2) by (metis div_mult_mod_eq)
    have "x mod ?C \<noteq> ?col"
    proof
      assume "x mod ?C = ?col"
      with x have "x = ?a + hostID g mod ?C" by (simp add: gridColumnID_def)
      then have "x = hostID g" by simp
      with g(1) show False by simp
    qed
    moreover have "x mod ?C < ?C" using pos by simp
    ultimately have "x mod ?C \<in> {0..<?C} - {?col}" by simp
    with x show "x \<in> ?S" by blast
  qed
  have "?col \<in> {0..<?C}" using pos by (simp add: gridColumnID_def)
  then have cS: "card ?S = ?C - 1"
    by (simp add: card_image)
  have "card (set (map fst ms)) = ?C - 1"
    using distinct_card [OF dist] len by simp
  with cS have "card (set (map fst ms)) = card ?S" by simp
  moreover have "finite ?S" by simp
  ultimately have eq: "set (map fst ms) = ?S" using sub by (intro card_subset_eq)
  have "i \<in> {0..<?C} - {?col}" using i by simp
  then have "?a + i \<in> ?S" by (rule imageI)
  then have "?a + i \<in> fst ` set ms" by (simp only: eq [symmetric] set_map)
  then obtain m where m: "m \<in> set ms" "?a + i = fst m" by (rule imageE)
  have "fst m mod ?C = i" using i(1) by (simp add: m(2) [symmetric])
  with m(1) show ?thesis by force
qed

lemma factorizeHosts_fields:
  assumes "1 \<le> numHosts g0" "factorizeHosts g0 = Inr g"
  shows "0 < numColumnHosts g \<and> numColumnHosts g dvd numHosts g \<and>
         hostID g = hostID g0 \<and> numHosts g = numHosts g0 \<and> gid2host g = gid2host g0 \<and>
         localToGlobalVector g = localToGlobalVector g0 \<and>
         columnBlocked g = columnBlocked g0 \<and> warnings g = warnings g0 \<and>
         numVirtualHosts g = (numHosts g0 * DecomposeFactor g0) mod 2 ^ 32 \<and>
         DecomposeFactor g = DecomposeFactor g0 \<and> ndebug g = ndebug g0"
proof -
  let ?H = "numHosts g0"
  from shrinkColumns_spec [where H = "?H" and c = "sqrt_trunc ?H", OF sqrt_trunc_pos [OF assms(1)]]
  obtain k where k: "shrinkColumns ?H (sqrt_trunc ?H) = Inr k" "1 \<le> k" "k dvd ?H" by blast
  have "?H div k * k = ?H" using k(3) by simp
  with assms(1) have q: "0 < ?H div k" by (cases "?H div k = 0") simp_all
  have "?H div k dvd ?H div k * k" by simp
  then have qd: "?H div k dvd ?H" by (simp only: \<open>?H div k * k = ?H\<close>)
  from assms(2) k(1) k(2) k(3) q qd show ?thesis
    by (auto simp: factorizeHosts_def Let_def split: if_splits)
qed

lemma exchange_sized:
  assumes dv: "numColumnHosts g dvd numHosts g" and pos: "0 < numColumnHosts g"
    and ins: "inspect g file = Inr own"
    and rcv: "receiveStats g (numColumnHosts g - 1) (statsInbox g file) own = Inr stats"
  shows "sized g stats \<and> length (snd stats) = DecomposeFactor g \<and>
         (\<forall>d < DecomposeFactor g. length (snd stats ! d) = numColumnHosts g)"
proof -
  let ?C = "numColumnHosts g"
  have s0: "sizedOn g {gridColumnID g (hostID g)} (snd own)" using dv ins by (rule sizedOn_own)
  have good: "\<forall>m\<in>set (statsInbox g file). goodMessage g m"
    using statsInbox_good [OF pos] by blast
  let ?ms = "take (?C - 1) (statsInbox g file)"
  from receiveStats_sized [OF dv pos rcv good s0] have
    len: "?C - 1 \<le> length (statsInbox g file)" and
    s1: "sizedOn g ({gridColumnID g (hostID g)} \<union> (\<lambda>m. fst m mod ?C) ` set ?ms) (snd stats)"
    by simp_all
  have dms: "distinct (map fst ?ms)"
    using statsInbox_distinct [of g "file"] by (simp add: take_map [symmetric])
  have gms: "\<forall>m\<in>set ?ms. goodMessage g m" using good by (meson in_set_takeD)
  have lms: "length ?ms = ?C - 1" using len by simp
  have all: "i \<in> {gridColumnID g (hostID g)} \<union> (\<lambda>m. fst m mod ?C) ` set ?ms" if "i < ?C" for i
  proof (cases "i = gridColumnID g (hostID g)")
    case True
    then show ?thesis by simp
  next
    case False
    with row_peers_all [OF dv pos dms gms lms that] show ?thesis by simp
  qed
  have "sized g stats"
    unfolding sized_def
  proof (intro allI impI)
    fix d i assume d: "d < DecomposeFactor g" and i: "i < ?C"
    from all [OF i] s1 d i show "length (snd stats ! d ! i) =
        snd (gid2host g ! (leaderHostID g d + i)) - fst (gid2host g ! (leaderHostID g d + i))"
      unfolding sizedOn_def by blast
  qed
  moreover from s1 have "length (snd stats) = DecomposeFactor g"
    "\<forall>d < DecomposeFactor g. length (snd stats ! d) = ?C"
    by (simp_all add: sizedOn_def)
  ultimately show ?thesis by simp
qed

lemma loadStatistics_layout:
  assumes dv: "numColumnHosts g dvd numHosts g" and pos: "0 < numColumnHosts g"
    and run: "loadStatistics g file = Inr st"
  shows "\<exists>stats bits. sized (g\<lparr>numOwned := sumOwned g\<rparr>) stats \<and>
           layoutNodes (g\<lparr>numOwned := sumOwned g\<rparr>) stats bits = Inr st"
proof -
  define G where "G = g\<lparr>numOwned := sumOwned g\<rparr>"
  have G: "numColumnHosts G = numColumnHosts g" "numHosts G = numHosts g"
    by (simp_all add: G_def)
  from run obtain own stats bits where
    ins: "inspect G file = Inr own" and
    rcv: "receiveStats G (numColumnHosts G - 1) (statsInbox G file) own = Inr stats" and
    lay: "layoutNodes G stats bits = Inr st"
    by (auto simp: loadStatistics_def Let_def G_def split: sum.splits)
  have dvG: "numColumnHosts G dvd numHosts G" and posG: "0 < numColumnHosts G"
    using dv pos by (simp_all add: G)
  from exchange_sized [OF dvG posG ins rcv] have "sized G stats" by simp
  with lay show ?thesis unfolding G_def by blast
qed

lemma loadStatistics_distinct:
  assumes bm: "blockMap (gid2host g) n" and dv: "numColumnHosts g dvd numHosts g"
    and pos: "0 < numColumnHosts g" and hid: "hostID g < numHosts g"
    and fresh: "localToGlobalVector g = []"
    and run: "loadStatistics g file = Inr st"
  shows "distinct (localToGlobalVector (fst st)) \<and>
         set (localToGlobalVector (fst st)) \<subseteq> {0..<n} \<and>
         numNodes (fst st) = length (localToGlobalVector (fst st)) mod 2 ^ 32"
proof -
  define G where "G = g\<lparr>numOwned := sumOwned g\<rparr>"
  from loadStatistics_layout [OF dv pos run] obtain stats bits where
    sz: "sized G stats" and lay: "layoutNodes G stats bits = Inr st"
    unfolding G_def by blast
  have G: "blockMap (gid2host G) n" "numColumnHosts G dvd numHosts G" "0 < numColumnHosts G"
    "hostID G < numHosts G" and fr: "localToGlobalVector G = []"
    using bm dv pos hid fresh by (simp_all add: G_def)
  from G sz fr lay show ?thesis by (rule layoutNodes_distinct)
qed

subsection \<open>The local index of a host with \<open>2 ^ 32\<close> nodes\<close>

text \<open>A loop whose steps all leave the state alone, the inspection of a graph without
  edges, and the loop over the own nodes in a release build.\<close>

lemma foldE_id:
  assumes "\<And>x. x \<in> set xs \<Longrightarrow> f x s = Inr s"
  shows "foldE f xs s = Inr s"
  using assms by (induction xs) simp_all

lemma inspect_edgeless:
  assumes "\<And>d. d < DecomposeFactor g \<Longrightarrow>
             hostID g + d * numHosts g < length (gid2host g) \<and>
             snd (gid2host g ! (hostID g + d * numHosts g)) \<le> n"
  shows "inspect g (replicate n []) = Inr (initialStats g)"
  unfolding inspect_def
proof (rule foldE_id)
  fix d assume "d \<in> set [0..<DecomposeFactor g]"
  then have d: "d < DecomposeFactor g" by simp
  let ?r = "gid2host g ! (hostID g + d * numHosts g)"
  have "foldE (inspectNode g (replicate n []) d (fst ?r)) [fst ?r..<snd ?r] (initialStats g) =
        Inr (initialStats g)"
  proof (rule foldE_id)
    fix src assume "src \<in> set [fst ?r..<snd ?r]"
    with assms [OF d] have "src < n" by simp
    then show "inspectNode g (replicate n []) d (fst ?r) src (initialStats g) = Inr (initialStats g)"
      by (simp add: inspectNode_def)
  qed
  with assms [OF d] show "inspectRange g (replicate n []) d (initialStats g) = Inr (initialStats g)"
    by (simp add: inspectRange_def rangeOf_def)
qed

lemma ownedLoop_release:
  assumes "ndebug g"
  shows "numNodes (fst st) < 2 ^ 32 \<Longrightarrow>
         \<exists>st'. ownedLoop g src ns st = Inr st' \<and>
           localToGlobalVector (fst st') = localToGlobalVector (fst st) @ [src..<src + length ns] \<and>
           numNodes (fst st') = (numNodes (fst st) + length ns) mod 2 ^ 32"
proof (induction ns arbitrary: src st)
  case Nil
  then show ?case by simp
next
  case (Cons k ns)
  obtain t where t: "createNode g src (addEdges k st) = Inr t"
    "localToGlobalVector (fst t) = localToGlobalVector (fst st) @ [src]"
    "numNodes (fst t) = (numNodes (fst st) + 1) mod 2 ^ 32"
    using assms by (simp add: createNode_def addEdges_def Let_def)
  have "numNodes (fst t) < 2 ^ 32" by (simp add: t(3))
  from Cons.IH [OF this, of "Suc src"] obtain st' where
    st': "ownedLoop g (Suc src) ns t = Inr st'"
      "localToGlobalVector (fst st') = localToGlobalVector (fst t) @ [Suc src..<Suc src + length ns]"
      "numNodes (fst st') = (numNodes (fst t) + length ns) mod 2 ^ 32"
    by blast
  have "numNodes (fst st') = (numNodes (fst st) + length (k # ns)) mod 2 ^ 32"
    by (simp add: st'(3) t(3) mod_add_left_eq)
  moreover have "localToGlobalVector (fst st') =
      localToGlobalVector (fst st) @ [src..<src + length (k # ns)]"
    by (simp add: st'(2) t(2) upt_conv_Cons del: upt_Suc)
  moreover have "ownedLoop g src (k # ns) st = Inr st'" by (simp add: t(1) st'(1))
  ultimately show ?case by blast
qed

text \<open>
  Claim C5, at one host with decompose factor two and \<open>2 ^ 32\<close> global nodes without
  edges, in a release build. The loop over the own nodes runs over \<open>2 ^ 31\<close> nodes for each
  of the two virtual hosts. The first pass completes with \<open>2 ^ 32\<close> entries in
  \<open>localToGlobalVector\<close>, and the \<open>uint32_t numNodes\<close> has wrapped to 0.
\<close>

theorem first_pass_wraps_counterexample:
  "\<not> isl (firstStatistics wideHost wideFile) \<and>
   length (localToGlobalVector (fst (projr (firstStatistics wideHost wideFile)))) = 2 ^ 32 \<and>
   numNodes (fst (projr (firstStatistics wideHost wideFile))) = 0 \<and>
   numNodes (fst (projr (firstStatistics wideHost wideFile))) \<noteq>
     length (localToGlobalVector (fst (projr (firstStatistics wideHost wideFile))))"
proof -
  define a :: nat where "a = 2 ^ 31"
  define G where "G = (wideHost\<lparr>numRowHosts := 2, numColumnHosts := 1, numVirtualHosts := 2,
    numOwned := a + a\<rparr>)"
  have a: "a < 2 ^ 32" "(a + a) mod 2 ^ 32 = 0" "a + a = 2 ^ 32" by (simp_all add: a_def)
  have G: "DecomposeFactor G = 2" "hostID G = 0" "numHosts G = 1" "numColumnHosts G = 1"
    "numRowHosts G = 2" "gid2host G = [(0, a), (a, a + a)]" "ndebug G" "\<not> columnBlocked G"
    "localToGlobalVector G = []"
    by (simp_all add: G_def wideHost_def newHost_def a_def)
  have two: "[0..<2] = [0, Suc 0]" by (simp add: upt_conv_Cons)
  have f: "firstStatistics wideHost wideFile = loadStatistics (G\<lparr>numOwned := 0\<rparr>) wideFile"
    by (simp add: firstStatistics_def G_def wideHost_def eval_grid)
  have own: "sumOwned (G\<lparr>numOwned := 0\<rparr>) = a + a"
    by (simp add: sumOwned_def ownedSize_def G two)
  then have g0: "(G\<lparr>numOwned := 0\<rparr>)\<lparr>numOwned := sumOwned (G\<lparr>numOwned := 0\<rparr>)\<rparr> = G"
    by (simp add: G_def)
  have ins: "inspect G wideFile = Inr (initialStats G)"
    unfolding wideFile_def
  proof (rule inspect_edgeless)
    fix d assume "d < DecomposeFactor G"
    then have "d = 0 \<or> d = 1" using G(1) by auto
    then show "hostID G + d * numHosts G < length (gid2host G) \<and>
               snd (gid2host G ! (hostID G + d * numHosts G)) \<le> 2 ^ 32"
      using a(3) by (auto simp: G)
  qed
  define stats where "stats = initialStats G"
  have len: "length (snd stats) = 2" "length (snd stats ! 0) = 1" "length (snd stats ! Suc 0) = 1"
    "snd stats ! 0 ! 0 = replicate a 0" "snd stats ! Suc 0 ! 0 = replicate a 0"
    by (simp_all add: stats_def initialStats_def G ownedSize_def)
  have bits: "orReduce (fst stats) = Inr (replicate (columnBlockSize G 0) False)"
    by (simp add: stats_def initialStats_def G orReduce_def)
  define bs where "bs = replicate (columnBlockSize G 0) False"
  define st0 :: layout where
    "st0 = (G\<lparr>dummyOutgoingNodes := 0, numNodes := 0, numEdges := 0\<rparr>, [])"
  have "numNodes (fst st0) < 2 ^ 32" by (simp add: st0_def)
  from ownedLoop_release [OF G(7) this, of 0 "replicate a 0"] obtain st1 where
    st1: "ownedLoop G 0 (replicate a 0) st0 = Inr st1"
      "localToGlobalVector (fst st1) = [0..<a]" "numNodes (fst st1) = a"
    using a(1) by (auto simp: st0_def G)
  have "numNodes (fst st1) < 2 ^ 32" using a(1) by (simp add: st1(3))
  from ownedLoop_release [OF G(7) this, of a "replicate a 0"] obtain st2 where
    st2: "ownedLoop G a (replicate a 0) st1 = Inr st2"
      "localToGlobalVector (fst st2) = [0..<a] @ [a..<a + a]" "numNodes (fst st2) = 0"
    using a(2) by (auto simp: st1)
  have o0: "ownedNodes G stats 0 st0 = Inr st1"
    using a(1) by (simp add: ownedNodes_def rangeOf_def G gridColumnID_def len st1(1))
  have o1: "ownedNodes G stats (Suc 0) st1 = Inr st2"
    using a(1) by (simp add: ownedNodes_def rangeOf_def G gridColumnID_def len st2(1))
  have p1: "foldE (ownedNodes G stats) [0..<DecomposeFactor G] st0 = Inr st2"
    by (simp add: G two o0 o1)
  have p2: "foldE (outgoingMirrors G stats bs) [0..<DecomposeFactor G] st2 = Inr st2"
  proof (rule foldE_id)
    fix d
    show "outgoingMirrors G stats bs d st2 = Inr st2"
      by (simp add: outgoingMirrors_def outgoingMirrorsOf_def virtual2RealHost_def G)
  qed
  have p3: "foldE (incomingMirrorsOf G bs) [0..<numRowHosts G] (setNodesWithEdges st2) =
            Inr (setNodesWithEdges st2)"
  proof (rule foldE_id)
    fix i
    show "incomingMirrorsOf G bs i (setNodesWithEdges st2) = Inr (setNodesWithEdges st2)"
      by (simp add: incomingMirrorsOf_def virtual2RealHost_def G)
  qed
  have lay: "layoutNodes G stats bs = Inr (setNodesWithEdges st2)"
    using p1 p2 p3 by (simp add: layoutNodes_def st0_def)
  have "loadStatistics (G\<lparr>numOwned := 0\<rparr>) wideFile = Inr (setNodesWithEdges st2)"
    using ins bits lay by (simp add: loadStatistics_def Let_def g0 G stats_def bs_def)
  with f have r: "firstStatistics wideHost wideFile = Inr (setNodesWithEdges st2)" by simp
  have "length (localToGlobalVector (fst (setNodesWithEdges st2))) = a + a"
    by (simp add: setNodesWithEdges_def st2(2))
  then have "length (localToGlobalVector (fst (setNodesWithEdges st2))) = 2 ^ 32"
    by (simp only: a(3))
  moreover have "numNodes (fst (setNodesWithEdges st2)) = 0"
    by (simp add: setNodesWithEdges_def st2(3))
  ultimately show ?thesis by (simp add: r)
qed

subsection \<open>No duplicates in the local index\<close>

text \<open>
  Claim C5, amended. Take any run the constructor can make: a host \<open>hid\<close> of \<open>H\<close> hosts, a
  decompose factor \<open>D \<ge> 1\<close> with \<open>H * D\<close> virtual hosts in 32 bits, a block map with one
  range for each virtual host, contiguous and covering the \<open>n\<close> global ids, and a graph
  file on these ids; any number \<open>n\<close> of global ids, the grid column blocked or not, with
  more columns or more rows, the build release or debug, and whatever a \<open>test\<close> beyond the
  size of a bitset reads. When the first pass (the grid and \<open>loadStatistics\<close>) of the
  freshly constructed host completes, no global id appears more than once in
  \<open>localToGlobalVector\<close>, every entry is a global id, and \<open>numNodes\<close>, a \<open>uint32_t\<close>, is the
  length of \<open>localToGlobalVector\<close> modulo \<open>2 ^ 32\<close>: it is the length whenever the host has
  fewer than \<open>2 ^ 32\<close> local nodes.
\<close>

theorem first_pass_no_duplicates:
  assumes "hid < H" and "0 < D" and "H * D < 2 ^ 32"
    and "length ranges = H * D" and "blockMap ranges n" and "graphFile file n"
    and "firstStatistics ((newHost cb moreCols D release hid H ranges n)\<lparr>strayBits := stray\<rparr>) file
           = Inr st"
  shows "distinct (localToGlobalVector (fst st)) \<and>
         set (localToGlobalVector (fst st)) \<subseteq> {0..<n} \<and>
         numNodes (fst st) = length (localToGlobalVector (fst st)) mod 2 ^ 32 \<and>
         (length (localToGlobalVector (fst st)) < 2 ^ 32 \<longrightarrow>
            numNodes (fst st) = length (localToGlobalVector (fst st)))"
proof -
  let ?g0 = "(newHost cb moreCols D release hid H ranges n)\<lparr>strayBits := stray\<rparr>"
  from assms(7) obtain g where f: "factorizeHosts ?g0 = Inr g" and l: "loadStatistics g file = Inr st"
    by (auto simp: firstStatistics_def split: sum.splits)
  have "1 \<le> numHosts ?g0" using assms(1) by (simp add: newHost_def)
  from factorizeHosts_fields [OF this f] have g:
    "0 < numColumnHosts g" "numColumnHosts g dvd numHosts g" "hostID g = hid" "numHosts g = H"
    "gid2host g = ranges" "localToGlobalVector g = []"
    by (auto simp: newHost_def)
  have bm: "blockMap (gid2host g) n" and hid: "hostID g < numHosts g"
    using assms(1,5) g by simp_all
  from bm g(2) g(1) hid g(6) l have
    "distinct (localToGlobalVector (fst st)) \<and>
     set (localToGlobalVector (fst st)) \<subseteq> {0..<n} \<and>
     numNodes (fst st) = length (localToGlobalVector (fst st)) mod 2 ^ 32"
    by (rule loadStatistics_distinct)
  then show ?thesis by simp
qed

theorem first_pass_no_duplicates_witness:
  "(1::nat) < 4 \<and> (0::nat) < 2 \<and> (4::nat) * 2 < 2 ^ 32 \<and>
   length [(0::nat, 1::nat), (1, 2), (2, 3), (3, 4), (4, 5), (5, 6), (6, 7), (7, 8)] = 4 * 2 \<and>
   blockMap [(0, 1), (1, 2), (2, 3), (3, 4), (4, 5), (5, 6), (6, 7), (7, 8)] 8 \<and>
   graphFile blockedFile 8 \<and>
   \<not> isl (firstStatistics (blockedHost True 1) blockedFile) \<and>
   localToGlobalVector (fst (projr (firstStatistics (blockedHost True 1) blockedFile))) = [1, 5] \<and>
   length (localToGlobalVector (fst (projr (firstStatistics (blockedHost True 1) blockedFile))))
     < 2 ^ 32 \<and>
   distinct (localToGlobalVector (fst (projr (firstStatistics (blockedHost True 1) blockedFile)))) \<and>
   numNodes (fst (projr (firstStatistics (blockedHost True 1) blockedFile))) = 2"
proof -
  let ?r = "firstStatistics (blockedHost True 1) blockedFile"
  let ?ranges = "[(0::nat, 1::nat), (1, 2), (2, 3), (3, 4), (4, 5), (5, 6), (6, 7), (7, 8)]"
  have bm: "blockMap ?ranges 8"
    by (simp add: blockMap_def eval_list)
  have gf: "graphFile blockedFile 8"
    by (simp add: graphFile_def blockedFile_def)
  have ok: "\<not> isl ?r" and l2g: "localToGlobalVector (fst (projr ?r)) = [1, 5]"
    by (simp_all add: blockedHost_def blockedFile_def eval_grid eval_block eval_inspect
        eval_exchange eval_layout eval_list)
  have "(newHost True False 2 True 1 4 ?ranges 8)\<lparr>strayBits := \<lambda>k. False\<rparr> = blockedHost True 1"
    by (simp add: blockedHost_def newHost_def)
  with ok have run:
    "firstStatistics ((newHost True False 2 True 1 4 ?ranges 8)\<lparr>strayBits := \<lambda>k. False\<rparr>)
       blockedFile = Inr (projr ?r)"
    by simp
  have h: "(1::nat) < 4" and d: "(0::nat) < 2" and hd: "(4::nat) * 2 < 2 ^ 32"
    and len: "length ?ranges = 4 * 2" by simp_all
  from first_pass_no_duplicates [OF h d hd len bm gf run] ok l2g bm gf show ?thesis by simp
qed

text \<open>Every host of the checkerboard run with decompose factor two completes its first
  pass.\<close>

lemma blocked_hosts_complete:
  "list_all (\<lambda>x. \<not> isl (firstStatistics (blockedHost True x) blockedFile)) [0, 1, 2, 3]"
  by (simp add: blockedHost_def blockedFile_def eval_grid eval_block eval_inspect
      eval_exchange eval_layout eval_list)

subsection \<open>The first pass of a release build completes\<close>

text \<open>
  On a grid of \<open>H * D\<close> virtual hosts with one range for each, none of \<open>2 ^ 32\<close> nodes or
  more, and a graph file on the ids of the block map, no access of the first pass leaves
  its vector and every host of the grid row sends its message: a release build, which
  checks no assertion, completes the first pass.
\<close>

lemma foldE_total:
  assumes "P s" and "\<And>x t. x \<in> set xs \<Longrightarrow> P t \<Longrightarrow> \<exists>t'. f x t = Inr t' \<and> P t'"
  shows "\<exists>s'. foldE f xs s = Inr s' \<and> P s'"
  using assms
proof (induction xs arbitrary: s)
  case Nil
  then show ?case by simp
next
  case (Cons x xs)
  from Cons.prems(2) [of x s] Cons.prems(1) obtain t where t: "f x s = Inr t" "P t" by auto
  have "\<exists>s'. foldE f xs t = Inr s' \<and> P s'"
    using t(2)
  proof (rule Cons.IH)
    fix y u assume "y \<in> set xs" "P u"
    then show "\<exists>u'. f y u = Inr u' \<and> P u'" using Cons.prems(2) [of y u] by simp
  qed
  with t(1) show ?case by simp
qed

lemma getColumnHostID_bound:
  assumes pos: "0 < numColumnHosts g" and h: "0 < numHosts g"
    and grid: "numHosts g \<le> numRowHosts g * numColumnHosts g"
  shows "getColumnHostID g gid < numColumnHosts g"
proof (cases "columnBlocked g")
  case True
  have r: "0 < numRowHosts g" using h grid by (cases "numRowHosts g = 0") simp_all
  have "getBlockID g gid < numHosts g" using h by (simp add: getBlockID_def)
  with grid have "getBlockID g gid < numColumnHosts g * numRowHosts g" by (simp add: mult.commute)
  then have "getBlockID g gid div numRowHosts g < numColumnHosts g"
    using r by (simp add: div_less_iff_less_mult)
  with True show ?thesis by (simp add: getColumnHostID_def getColumnHostIDOfBlock_def)
next
  case False
  with pos show ?thesis by (simp add: getColumnHostID_def getColumnHostIDOfBlock_def)
qed

lemma statShape_initial: "statShape g (initialStats g)"
  using ownShaped_initial [of g] by (simp add: statShape_def) (simp add: initialStats_def)

lemma inspectEdge_total:
  assumes sh: "statShape g st" and d: "d < DecomposeFactor g"
    and col: "getColumnHostID g dst < numColumnHosts g"
    and src: "src - rowOffset < ownedSize g d"
  shows "\<exists>st'. inspectEdge g d rowOffset src dst st = Inr st' \<and> statShape g st'"
proof -
  let ?h = "getColumnHostID g dst"
  from sh have len: "length (fst st) = numColumnHosts g" and own: "ownShaped g (snd st)"
    by (simp_all add: statShape_def)
  from own d col have b: "d < length (snd st)" "?h < length (snd st ! d)"
    "src - rowOffset < length (snd st ! d ! ?h)"
    using src by (simp_all add: ownShaped_def)
  let ?st' = "((fst st)[?h := (fst st ! ?h)[getColumnIndex g dst := True]],
               (snd st)[d := (snd st ! d)
                  [?h := (snd st ! d ! ?h)
                     [src - rowOffset := Suc (snd st ! d ! ?h ! (src - rowOffset))]]])"
  have "inspectEdge g d rowOffset src dst st = Inr ?st'"
    using b col len by (simp add: inspectEdge_def Let_def)
  moreover have "statShape g ?st'"
    using len ownShaped_update [OF own] by (simp add: statShape_def)
  ultimately show ?thesis by blast
qed

lemma inspect_total:
  assumes pos: "0 < numColumnHosts g" and h: "0 < numHosts g"
    and grid: "numHosts g \<le> numRowHosts g * numColumnHosts g"
    and own: "\<And>d. d < DecomposeFactor g \<Longrightarrow>
               hostID g + d * numHosts g < length (gid2host g) \<and>
               snd (gid2host g ! (hostID g + d * numHosts g)) \<le> length file"
  shows "\<exists>st. inspect g file = Inr st \<and> statShape g st"
  unfolding inspect_def using statShape_initial
proof (rule foldE_total)
  fix d st assume "d \<in> set [0..<DecomposeFactor g]" and sh: "statShape g st"
  then have d: "d < DecomposeFactor g" by simp
  let ?r = "gid2host g ! (hostID g + d * numHosts g)"
  have "\<exists>st'. foldE (inspectNode g file d (fst ?r)) [fst ?r..<snd ?r] st = Inr st' \<and> statShape g st'"
    using sh
  proof (rule foldE_total)
    fix src t assume src: "src \<in> set [fst ?r..<snd ?r]" and t: "statShape g t"
    from src own [OF d] have lt: "src < length file" by simp
    from src have off: "src - fst ?r < ownedSize g d" by (auto simp: ownedSize_def)
    have "\<exists>t'. foldE (inspectEdge g d (fst ?r) src) (file ! src) t = Inr t' \<and> statShape g t'"
      using t
    proof (rule foldE_total)
      fix dst u assume "statShape g u"
      then show "\<exists>u'. inspectEdge g d (fst ?r) src dst u = Inr u' \<and> statShape g u'"
        using d getColumnHostID_bound [OF pos h grid] off by (rule inspectEdge_total)
    qed
    with lt show "\<exists>t'. inspectNode g file d (fst ?r) src t = Inr t' \<and> statShape g t'"
      by (simp add: inspectNode_def)
  qed
  with own [OF d] show "\<exists>st'. inspectRange g file d st = Inr st' \<and> statShape g st'"
    by (simp add: inspectRange_def rangeOf_def)
qed

lemma statsInbox_has:
  assumes pos: "0 < numColumnHosts g" and x: "x < numHosts g" and ne: "x \<noteq> hostID g"
    and row: "x div numColumnHosts g = hostID g div numColumnHosts g"
    and ins: "inspect (g\<lparr>hostID := x\<rparr>) file = Inr stx"
  shows "x \<in> fst ` set (statsInbox g file)"
proof -
  let ?C = "numColumnHosts g" and ?gx = "g\<lparr>hostID := x\<rparr>"
  let ?i = "hostID g mod ?C"
  let ?m = "(x, map (\<lambda>d. snd stx ! d ! ?i) [0..<DecomposeFactor g], fst stx ! ?i)"
  have tgt: "gridRowID ?gx x * ?C + ?i = hostID g"
    by (simp add: gridRowID_def row)
  have "(hostID g, ?m) \<in> set (statsMessages ?gx stx)"
    unfolding statsMessages_def set_map using pos ne tgt
    by (intro image_eqI [where x = ?i]) simp_all
  then have "(hostID g, ?m) \<in> set (sentStats g file x)"
    by (simp add: sentStats_def ins)
  then have "?m \<in> set (map snd (filter (\<lambda>m. fst m = hostID g) (sentStats g file x)))"
    by force
  with x have "?m \<in> set (statsInbox g file)" by (auto simp: statsInbox_def)
  then show ?thesis by force
qed

lemma inbox_long:
  assumes dv: "numColumnHosts g dvd numHosts g" and pos: "0 < numColumnHosts g"
    and hid: "hostID g < numHosts g"
    and all: "\<And>x. x < numHosts g \<Longrightarrow> \<exists>stx. inspect (g\<lparr>hostID := x\<rparr>) file = Inr stx"
  shows "numColumnHosts g - 1 \<le> length (statsInbox g file)"
proof -
  let ?C = "numColumnHosts g" and ?col = "hostID g mod numColumnHosts g"
  let ?a = "(hostID g div ?C) * ?C"
  let ?S = "(\<lambda>j. ?a + j) ` ({0..<?C} - {?col})"
  have sub: "?S \<subseteq> fst ` set (statsInbox g file)"
  proof
    fix x assume "x \<in> ?S"
    then obtain j where "j \<in> {0..<?C} - {?col}" and x: "x = ?a + j" by (rule imageE)
    then have j: "j < ?C" "j \<noteq> ?col" by simp_all
    have lt: "x < numHosts g" using row_in_range [OF dv pos hid j(1)] by (simp add: x)
    have row: "x div ?C = hostID g div ?C" using j(1) by (simp add: x)
    have ne: "x \<noteq> hostID g"
    proof
      assume "x = hostID g"
      then have "x mod ?C = ?col" by simp
      moreover have "x mod ?C = j" using j(1) by (simp add: x)
      ultimately show False using j(2) by simp
    qed
    from all [OF lt] obtain stx where "inspect (g\<lparr>hostID := x\<rparr>) file = Inr stx" by blast
    with pos lt ne row show "x \<in> fst ` set (statsInbox g file)" by (rule statsInbox_has)
  qed
  have "?col \<in> {0..<?C}" using pos by simp
  then have c1: "card ?S = ?C - 1" by (simp add: card_image)
  have c2: "card ?S \<le> card (fst ` set (statsInbox g file))"
    using sub by (intro card_mono) simp_all
  have c3: "card (fst ` set (statsInbox g file)) \<le> card (set (statsInbox g file))"
    by (rule card_image_le) simp
  have c4: "card (set (statsInbox g file)) \<le> length (statsInbox g file)" by (rule card_length)
  from c1 c2 c3 c4 show ?thesis by linarith
qed

lemma receiveStats_total:
  "k \<le> length inbox \<Longrightarrow>
   \<exists>st'. receiveStats g k inbox st = Inr st' \<and> length (fst st') = length (fst st)"
proof (induction k arbitrary: inbox st)
  case 0
  then show ?case by simp
next
  case (Suc k)
  then obtain m rest where inbox: "inbox = m # rest" by (cases inbox) simp_all
  obtain x vecs bits where m: "m = (x, vecs, bits)" by (cases m)
  let ?h = "x mod numColumnHosts g"
  let ?st1 = "((fst st)[?h := bits],
               map (\<lambda>d. (snd st ! d)[?h := vecs ! d]) [0..<DecomposeFactor g])"
  have "k \<le> length rest" using Suc.prems by (simp add: inbox)
  from Suc.IH [OF this, of ?st1] obtain st' where
    "receiveStats g k rest ?st1 = Inr st'" "length (fst st') = length (fst ?st1)" by blast
  then show ?case by (simp add: inbox m Let_def)
qed

lemma ownedLoop_total: "ndebug g \<Longrightarrow> \<exists>st'. ownedLoop g src ns st = Inr st'"
proof (induction ns arbitrary: src st)
  case Nil
  then show ?case by simp
next
  case (Cons k ns)
  then obtain t where "createNode g src (addEdges k st) = Inr t"
    by (simp add: createNode_def Let_def)
  with Cons.IH [OF Cons.prems, of "Suc src" t] show ?case by simp
qed

lemma mirrorStep_total: "ndebug g \<Longrightarrow> \<exists>t. mirrorStep g bits i src k st = Inr t"
  by (auto simp: mirrorStep_def dummyOutgoing_def createNode_def Let_def)

lemma mirrorLoop_total: "ndebug g \<Longrightarrow> \<exists>st'. mirrorLoop g bits i src ns st = Inr st'"
proof (induction ns arbitrary: src st)
  case Nil
  then show ?case by simp
next
  case (Cons k ns)
  then obtain t where "mirrorStep g bits i src k st = Inr t"
    using mirrorStep_total by blast
  with Cons.IH [OF Cons.prems, of "Suc src" t] show ?case by simp
qed

lemma foldE_returns:
  assumes "\<And>x t. x \<in> set xs \<Longrightarrow> \<exists>t'. f x t = Inr t'"
  shows "\<exists>s'. foldE f xs s = Inr s'"
proof -
  have "\<exists>s'. foldE f xs s = Inr s' \<and> True"
    by (rule foldE_total [where P = "\<lambda>_. True"]) (use assms in simp_all)
  then show ?thesis by simp
qed

lemma layoutNodes_total:
  assumes rel: "ndebug g" and pos: "0 < numColumnHosts g"
    and dv: "numColumnHosts g dvd numHosts g"
    and sz: "sized g stats" and lenD: "length (snd stats) = DecomposeFactor g"
    and lenC: "\<forall>d < DecomposeFactor g. length (snd stats ! d) = numColumnHosts g"
    and row: "\<And>d i. d < DecomposeFactor g \<Longrightarrow> i < numColumnHosts g \<Longrightarrow>
               leaderHostID g d + i < length (gid2host g)"
    and col: "\<And>i. i < numRowHosts g \<Longrightarrow> incomingHost g i < length (gid2host g)"
    and small: "\<And>v. v < length (gid2host g) \<Longrightarrow>
               snd (gid2host g ! v) - fst (gid2host g ! v) < 2 ^ 32"
  shows "\<exists>st. layoutNodes g stats bits = Inr st"
proof -
  have short: "length (snd stats ! d ! i) < 2 ^ 32"
    if "d < DecomposeFactor g" "i < numColumnHosts g" for d i
    using sz that small [OF row [OF that]] by (simp add: sized_def)
  have own: "\<exists>t'. ownedNodes g stats d t = Inr t'" if d: "d < DecomposeFactor g" for d t
  proof -
    let ?col = "gridColumnID g (hostID g)"
    have c: "?col < numColumnHosts g" using pos by (simp add: gridColumnID_def)
    have "hostID g + d * numHosts g < length (gid2host g)"
      using row [OF d c] by (simp add: leader_col [OF dv])
    then show ?thesis
      using d c lenD lenC short [OF d c] ownedLoop_total [OF rel]
      by (simp add: ownedNodes_def rangeOf_def)
  qed
  have out: "\<exists>t'. outgoingMirrors g stats bits d t = Inr t'" if d: "d < DecomposeFactor g" for d t
    unfolding outgoingMirrors_def
  proof (rule foldE_returns)
    fix i u assume "i \<in> set [0..<numColumnHosts g]"
    then have i: "i < numColumnHosts g" by simp
    show "\<exists>u'. outgoingMirrorsOf g stats bits d i u = Inr u'"
      using d i lenD lenC short [OF d i] row [OF d i] mirrorLoop_total [OF rel]
      by (simp add: outgoingMirrorsOf_def rangeOf_def)
  qed
  have inc: "\<exists>t'. incomingMirrorsOf g bits i t = Inr t'" if i: "i < numRowHosts g" for i t
  proof -
    have "\<exists>t'. foldE (incomingStep g bits) xs t = Inr t'" for xs
    proof (rule foldE_returns)
      fix x u show "\<exists>u'. incomingStep g bits x u = Inr u'"
        using rel by (simp add: incomingStep_def createNode_def Let_def)
    qed
    then show ?thesis using col [OF i] by (simp add: incomingMirrorsOf_def rangeOf_def)
  qed
  obtain st1 where st1: "foldE (ownedNodes g stats) [0..<DecomposeFactor g]
      (g\<lparr>dummyOutgoingNodes := 0, numNodes := 0, numEdges := 0\<rparr>, []) = Inr st1"
    using foldE_returns [where f = "ownedNodes g stats" and xs = "[0..<DecomposeFactor g]"] own
    by (metis atLeastLessThan_iff set_upt)
  obtain st2 where st2: "foldE (outgoingMirrors g stats bits) [0..<DecomposeFactor g] st1 = Inr st2"
    using foldE_returns [where f = "outgoingMirrors g stats bits" and xs = "[0..<DecomposeFactor g]"]
      out by (metis atLeastLessThan_iff set_upt)
  obtain st3 where "foldE (incomingMirrorsOf g bits) [0..<numRowHosts g] (setNodesWithEdges st2)
      = Inr st3"
    using foldE_returns [where f = "incomingMirrorsOf g bits" and xs = "[0..<numRowHosts g]"]
      inc by (metis atLeastLessThan_iff set_upt)
  with st1 st2 show ?thesis by (simp add: layoutNodes_def)
qed

lemma factorizeHosts_returns:
  assumes "1 \<le> numHosts g" and fits: "numHosts g * DecomposeFactor g < 2 ^ 32"
  shows "\<exists>g'. factorizeHosts g = Inr g' \<and>
           numRowHosts g' * numColumnHosts g' = numHosts g * DecomposeFactor g"
proof -
  let ?H = "numHosts g" and ?D = "DecomposeFactor g"
  from shrinkColumns_spec [where H = "?H" and c = "sqrt_trunc ?H", OF sqrt_trunc_pos [OF assms(1)]]
  obtain k where k: "shrinkColumns ?H (sqrt_trunc ?H) = Inr k" "1 \<le> k" "k \<le> sqrt_trunc ?H"
    "k dvd ?H" by blast
  have "k * k \<le> sqrt_trunc ?H * sqrt_trunc ?H" using k(3) by (simp add: mult_le_mono)
  then have "k * k \<le> ?H" using sqrt_trunc_sq [of ?H] by linarith
  with k(2) have le: "k \<le> ?H div k" by (rule div_ge_self)
  have prod: "?H div k * k = ?H" using k(4) by simp
  have "(?H div k) * ?D \<le> ?H * ?D" by (simp add: mult_le_mono1)
  with fits have "(?H div k) * ?D < 2 ^ 32" by linarith
  then have r1: "((?H div k) * ?D) mod 2 ^ 32 = (?H div k) * ?D" by (rule mod_less)
  have "k \<le> ?H" using k(4) assms(1) by (simp add: dvd_imp_le)
  then have "k * ?D \<le> ?H * ?D" by (simp add: mult_le_mono1)
  with fits have "k * ?D < 2 ^ 32" by linarith
  then have r2: "(k * ?D) mod 2 ^ 32 = k * ?D" by (rule mod_less)
  have p1: "(?H div k) * ?D * k = ?H * ?D"
  proof -
    have "(?H div k) * ?D * k = (?H div k * k) * ?D" by (simp add: ac_simps)
    then show ?thesis by (simp only: prod)
  qed
  have p2: "k * ?D * (?H div k) = ?H * ?D"
  proof -
    have "k * ?D * (?H div k) = (?H div k * k) * ?D" by (simp add: ac_simps)
    then show ?thesis by (simp only: prod)
  qed
  show ?thesis
  proof (cases "moreColumnHosts g")
    case True
    define g' where "g' = g\<lparr>numVirtualHosts := (?H * ?D) mod 2 ^ 32,
        numRowHosts := k, numColumnHosts := ?H div k, numRowHosts := (k * ?D) mod 2 ^ 32\<rparr>"
    have "factorizeHosts g = Inr g'"
      using k(1) le True by (simp add: factorizeHosts_def Let_def g'_def)
    moreover have "numRowHosts g' = k * ?D" "numColumnHosts g' = ?H div k"
      using r2 by (simp_all add: g'_def)
    then have "numRowHosts g' * numColumnHosts g' = ?H * ?D" by (simp only: p2)
    ultimately show ?thesis by blast
  next
    case False
    define g' where "g' = g\<lparr>numVirtualHosts := (?H * ?D) mod 2 ^ 32,
        numRowHosts := ?H div k, numColumnHosts := k, numRowHosts := (?H div k * ?D) mod 2 ^ 32\<rparr>"
    have "factorizeHosts g = Inr g'"
      using k(1) le False by (simp add: factorizeHosts_def Let_def g'_def)
    moreover have "numRowHosts g' = ?H div k * ?D" "numColumnHosts g' = k"
      using r1 by (simp_all add: g'_def)
    then have "numRowHosts g' * numColumnHosts g' = ?H * ?D" by (simp only: p1)
    ultimately show ?thesis by blast
  qed
qed

lemma virtual_bound:
  fixes x :: nat
  assumes "x < H" "d < D"
  shows "x + d * H < H * D"
proof -
  have "x + d * H < Suc d * H" using assms(1) by simp
  also have "\<dots> \<le> D * H" using assms(2) by (intro mult_le_mono1) simp
  finally show ?thesis by (simp add: mult.commute)
qed

lemma loadStatistics_total:
  assumes rel: "ndebug g" and pos: "0 < numColumnHosts g"
    and dv: "numColumnHosts g dvd numHosts g" and hid: "hostID g < numHosts g"
    and D: "0 < DecomposeFactor g"
    and grid: "numRowHosts g * numColumnHosts g = numHosts g * DecomposeFactor g"
    and len: "length (gid2host g) = numHosts g * DecomposeFactor g"
    and bm: "blockMap (gid2host g) n" and gf: "length file = n"
    and small: "\<And>v. v < length (gid2host g) \<Longrightarrow>
                 snd (gid2host g ! v) - fst (gid2host g ! v) < 2 ^ 32"
  shows "\<exists>st. loadStatistics g file = Inr st"
proof -
  define G where "G = g\<lparr>numOwned := sumOwned g\<rparr>"
  let ?C = "numColumnHosts G" and ?H = "numHosts G" and ?D = "DecomposeFactor G"
  have G: "ndebug G" "0 < ?C" "?C dvd ?H" "hostID G < ?H" "0 < ?D"
    "numRowHosts G * ?C = ?H * ?D" "length (gid2host G) = ?H * ?D" "blockMap (gid2host G) n"
    using rel pos dv hid D grid len bm by (simp_all add: G_def)
  have smallG: "snd (gid2host G ! v) - fst (gid2host G ! v) < 2 ^ 32"
    if "v < length (gid2host G)" for v
    using small [of v] that by (simp add: G_def)
  have H: "0 < ?H" using G(4) by simp
  have cover: "?H \<le> numRowHosts G * ?C" using G(5) by (simp add: G(6))
  have insp: "\<exists>st. inspect (G\<lparr>hostID := x\<rparr>) file = Inr st \<and> statShape (G\<lparr>hostID := x\<rparr>) st"
    if x: "x < ?H" for x
  proof (rule inspect_total)
    show "0 < numColumnHosts (G\<lparr>hostID := x\<rparr>)" using G(2) by simp
    show "0 < numHosts (G\<lparr>hostID := x\<rparr>)" using H by simp
    show "numHosts (G\<lparr>hostID := x\<rparr>)
            \<le> numRowHosts (G\<lparr>hostID := x\<rparr>) * numColumnHosts (G\<lparr>hostID := x\<rparr>)"
      using cover by simp
  next
    fix d assume "d < DecomposeFactor (G\<lparr>hostID := x\<rparr>)"
    then have "x + d * ?H < length (gid2host G)" using x by (simp add: G(7) virtual_bound)
    moreover from this have "snd (gid2host G ! (x + d * ?H)) \<le> n"
      using G(8) by (simp add: blockMap_upper)
    ultimately show "hostID (G\<lparr>hostID := x\<rparr>) + d * numHosts (G\<lparr>hostID := x\<rparr>)
          < length (gid2host (G\<lparr>hostID := x\<rparr>)) \<and>
        snd (gid2host (G\<lparr>hostID := x\<rparr>) !
              (hostID (G\<lparr>hostID := x\<rparr>) + d * numHosts (G\<lparr>hostID := x\<rparr>))) \<le> length file"
      by (simp add: gf)
  qed
  have "G\<lparr>hostID := hostID G\<rparr> = G" by simp
  with insp [OF G(4)] obtain own where
    ins: "inspect G file = Inr own" and sh: "statShape G own" by auto
  have "?C - 1 \<le> length (statsInbox G file)"
    using G(3) G(2) G(4)
  proof (rule inbox_long)
    fix x assume "x < ?H"
    from insp [OF this] show "\<exists>stx. inspect (G\<lparr>hostID := x\<rparr>) file = Inr stx" by blast
  qed
  from receiveStats_total [OF this, of G own] obtain stats where
    rcv: "receiveStats G (?C - 1) (statsInbox G file) own = Inr stats"
    and bl: "length (fst stats) = length (fst own)" by blast
  from exchange_sized [OF G(3) G(2) ins rcv] have sz: "sized G stats"
    and lenD: "length (snd stats) = ?D" and lenC: "\<forall>d < ?D. length (snd stats ! d) = ?C"
    by simp_all
  have "length (fst stats) = ?C" using bl sh by (simp add: statShape_def)
  with G(2) obtain b0 bs where "fst stats = b0 # bs" by (cases "fst stats") simp_all
  then have orr: "orReduce (fst stats) = Inr (foldl bitwise_or b0 bs)" by (simp add: orReduce_def)
  have row: "leaderHostID G d + i < length (gid2host G)" if "d < ?D" "i < ?C" for d i
  proof -
    have "hostID G div ?C * ?C + i < ?H" using G(3) G(2) G(4) that(2) by (rule row_in_range)
    then have "hostID G div ?C * ?C + i + d * ?H < ?H * ?D" using that(1) by (rule virtual_bound)
    then show ?thesis by (simp add: leader_plus [OF G(3)] G(7) add.assoc add.commute)
  qed
  have col: "incomingHost G i < length (gid2host G)" if i: "i < numRowHosts G" for i
  proof -
    let ?c = "gridColumnID G (hostID G)"
    have c: "?c < ?C" using G(2) by (simp add: gridColumnID_def)
    have "i + ?c * numRowHosts G < numRowHosts G * ?C" using i c by (rule virtual_bound)
    then have b1: "?c * numRowHosts G + i < ?H * ?D" by (simp add: G(6) add.commute)
    have "?c + i * ?C < ?C * numRowHosts G" using c i by (rule virtual_bound)
    then have b2: "i * ?C + ?c < ?H * ?D" using G(6) by (simp add: add.commute mult.commute)
    from b1 b2 show ?thesis by (simp add: incomingHost_def G(7))
  qed
  from layoutNodes_total [OF G(1) G(2) G(3) sz lenD lenC row col smallG,
      where bits = "foldl bitwise_or b0 bs"]
  obtain st where "layoutNodes G stats (foldl bitwise_or b0 bs) = Inr st" by blast
  then have "loadStatistics g file = Inr st"
    using ins rcv orr by (simp add: loadStatistics_def Let_def G_def)
  then show ?thesis by blast
qed

lemma release_first_pass_completes:
  assumes "hid < H" and "0 < D" and "H * D < 2 ^ 32"
    and "length ranges = H * D" and "blockMap ranges n" and "graphFile file n"
    and small: "\<And>v. v < length ranges \<Longrightarrow> snd (ranges ! v) - fst (ranges ! v) < 2 ^ 32"
  shows "\<exists>st. firstStatistics
                ((newHost cb moreCols D True hid H ranges n)\<lparr>strayBits := stray\<rparr>) file = Inr st"
proof -
  let ?g0 = "(newHost cb moreCols D True hid H ranges n)\<lparr>strayBits := stray\<rparr>"
  have h: "1 \<le> numHosts ?g0" and fits: "numHosts ?g0 * DecomposeFactor ?g0 < 2 ^ 32"
    using assms(1,3) by (simp_all add: newHost_def)
  from factorizeHosts_returns [OF h fits] obtain g where f: "factorizeHosts ?g0 = Inr g"
    and grid: "numRowHosts g * numColumnHosts g = numHosts ?g0 * DecomposeFactor ?g0" by blast
  from factorizeHosts_fields [OF h f] have g:
    "0 < numColumnHosts g" "numColumnHosts g dvd numHosts g" "hostID g = hid" "numHosts g = H"
    "gid2host g = ranges" "DecomposeFactor g = D" "ndebug g"
    by (auto simp: newHost_def)
  have "\<exists>st. loadStatistics g file = Inr st"
  proof (rule loadStatistics_total)
    show "ndebug g" "0 < numColumnHosts g" "numColumnHosts g dvd numHosts g" by (rule g)+
    show "hostID g < numHosts g" "0 < DecomposeFactor g" using assms(1,2) g by simp_all
    show "numRowHosts g * numColumnHosts g = numHosts g * DecomposeFactor g"
      using grid g by (simp add: newHost_def)
    show "length (gid2host g) = numHosts g * DecomposeFactor g" using assms(4) g by simp
    show "blockMap (gid2host g) n" using assms(5) g by simp
    show "length file = n" using assms(6) by (simp add: graphFile_def)
  next
    fix v assume "v < length (gid2host g)"
    then show "snd (gid2host g ! v) - fst (gid2host g ! v) < 2 ^ 32" using small g by simp
  qed
  with f show ?thesis by (simp add: firstStatistics_def)
qed

subsection \<open>The column index without a decompose factor\<close>

text \<open>
  When every virtual host is a host (decompose factor one) and the block map is
  contiguous, \<open>getColumnIndex\<close> is the offset of the id within the concatenation of the
  ranges of its column, in the 32 bits of its result.
\<close>

lemma blockMap_covers:
  assumes bm: "blockMap r n" and gid: "gid < n"
  shows "\<exists>v < length r. fst (r ! v) \<le> gid \<and> gid < snd (r ! v)"
proof -
  have step: "k < length r \<Longrightarrow> gid < snd (r ! k) \<Longrightarrow>
              \<exists>v \<le> k. fst (r ! v) \<le> gid \<and> gid < snd (r ! v)" for k
  proof (induction k)
    case 0
    moreover have "fst (r ! 0) = 0" using bm by (simp add: blockMap_def)
    ultimately show ?case by auto
  next
    case (Suc k)
    show ?case
    proof (cases "fst (r ! Suc k) \<le> gid")
      case True
      with Suc.prems show ?thesis by blast
    next
      case False
      moreover have "snd (r ! k) = fst (r ! Suc k)" using bm Suc.prems(1) by (rule blockMap_next)
      ultimately have "gid < snd (r ! k)" by simp
      with Suc.IH Suc.prems(1) obtain v where "v \<le> k" "fst (r ! v) \<le> gid" "gid < snd (r ! v)"
        by auto
      then show ?thesis using le_SucI by blast
    qed
  qed
  from bm have ne: "r \<noteq> []" and l: "snd (last r) = n" by (simp_all add: blockMap_def)
  have "last r = r ! (length r - 1)" using ne by (rule last_conv_nth)
  with l gid have "gid < snd (r ! (length r - 1))" by simp
  moreover have "length r - 1 < length r" using ne by simp
  ultimately obtain v where "v \<le> length r - 1" "fst (r ! v) \<le> gid" "gid < snd (r ! v)"
    using step by blast
  moreover have "0 < length r" using ne by simp
  ultimately have "v < length r" by linarith
  with \<open>fst (r ! v) \<le> gid\<close> \<open>gid < snd (r ! v)\<close> show ?thesis by blast
qed

lemma find_upt_first:
  assumes "v < n" "P v" "\<And>u. u < v \<Longrightarrow> \<not> P u"
  shows "find P [0..<n] = Some v"
proof -
  have "\<exists>i<length [0..<n]. P ([0..<n] ! i) \<and> v = [0..<n] ! i \<and> (\<forall>j<i. \<not> P ([0..<n] ! j))"
    using assms by (intro exI [of _ v]) simp
  then show ?thesis by (simp only: find_Some_iff)
qed

lemma getHostID_range:
  assumes bm: "blockMap (gid2host g) n" and nv: "numVirtualHosts g = length (gid2host g)"
    and v: "v < length (gid2host g)" "fst (gid2host g ! v) \<le> gid" "gid < snd (gid2host g ! v)"
  shows "getHostID g gid = v"
proof -
  let ?P = "\<lambda>h. fst (gid2host g ! h) \<le> gid \<and> gid < snd (gid2host g ! h)"
  have "\<not> ?P u" if "u < v" for u
  proof -
    have "snd (gid2host g ! u) \<le> fst (gid2host g ! v)" using bm that v(1) by (rule blockMap_mono)
    with v(2) show ?thesis by simp
  qed
  with v have "find ?P [0..<length (gid2host g)] = Some v" by (intro find_upt_first) simp_all
  then show ?thesis by (simp add: getHostID_def nv)
qed

lemma sub64_plain:
  assumes "b \<le> a" "a < 2 ^ 64"
  shows "sub64 a b = a - b"
proof -
  define M where "M = (2::nat) ^ 64"
  have lt: "a - b < M" using assms(2) unfolding M_def by (rule less_imp_diff_less)
  have "a + M - b = M + (a - b)" using assms(1) by simp
  then have "(a + M - b) mod M = (M + (a - b)) mod M" by (simp only:)
  also have "\<dots> = (a - b) mod M" by simp
  also have "\<dots> = a - b" using lt by (rule mod_less)
  finally show ?thesis by (simp only: sub64_def M_def)
qed

lemma columnIndexLoop_below:
  assumes small: "gid < 2 ^ 64"
    and last: "getColumnHostIDOfBlock g v = h" "fst (gid2host g ! v) \<le> gid"
      "gid < snd (gid2host g ! v)"
  shows "\<forall>b\<in>set bs. fst (gid2host g ! b) \<le> snd (gid2host g ! b) \<and> snd (gid2host g ! b) \<le> gid \<Longrightarrow>
         columnIndexLoop g gid h (bs @ [v]) acc =
           (acc + sum_list (map (\<lambda>b. snd (gid2host g ! b) - fst (gid2host g ! b))
                              (filter (\<lambda>b. getColumnHostIDOfBlock g b = h) bs))
                + (gid - fst (gid2host g ! v))) mod 2 ^ 32"
proof (induction bs arbitrary: acc)
  case Nil
  show ?case using last small by (simp add: add32_def sub64_plain)
next
  case (Cons b bs)
  from Cons.prems have b: "fst (gid2host g ! b) \<le> snd (gid2host g ! b)" "snd (gid2host g ! b) \<le> gid"
    and rest: "\<forall>b\<in>set bs. fst (gid2host g ! b) \<le> snd (gid2host g ! b) \<and> snd (gid2host g ! b) \<le> gid"
    by simp_all
  show ?case
  proof (cases "getColumnHostIDOfBlock g b = h")
    case True
    let ?sz = "snd (gid2host g ! b) - fst (gid2host g ! b)"
    have s: "sub64 (snd (gid2host g ! b)) (fst (gid2host g ! b)) = ?sz"
      using b small by (intro sub64_plain) simp_all
    have "columnIndexLoop g gid h ((b # bs) @ [v]) acc =
          columnIndexLoop g gid h (bs @ [v]) ((acc + ?sz) mod 2 ^ 32)"
      using True b(2) by (simp add: add32_def s)
    also have "\<dots> = ((acc + ?sz) mod 2 ^ 32
          + sum_list (map (\<lambda>b. snd (gid2host g ! b) - fst (gid2host g ! b))
                       (filter (\<lambda>b. getColumnHostIDOfBlock g b = h) bs))
          + (gid - fst (gid2host g ! v))) mod 2 ^ 32"
      using rest by (rule Cons.IH)
    also have "\<dots> = (acc + ?sz
          + sum_list (map (\<lambda>b. snd (gid2host g ! b) - fst (gid2host g ! b))
                       (filter (\<lambda>b. getColumnHostIDOfBlock g b = h) bs))
          + (gid - fst (gid2host g ! v))) mod 2 ^ 32"
      by (simp add: mod_add_left_eq add.assoc)
    finally show ?thesis using True by (simp add: add.assoc)
  next
    case False
    then have "columnIndexLoop g gid h ((b # bs) @ [v]) acc = columnIndexLoop g gid h (bs @ [v]) acc"
      by simp
    with Cons.IH [OF rest, of acc] False show ?thesis by simp
  qed
qed

lemma upt_split:
  assumes "a \<le> x" "x < (b::nat)"
  shows "[a..<b] = [a..<x] @ x # [Suc x..<b]"
proof -
  have "[a..<x + (b - x)] = [a..<x] @ [x..<x + (b - x)]" using assms(1) by (rule upt_add_eq_append)
  moreover have "x + (b - x) = b" using assms(2) by simp
  ultimately have "[a..<b] = [a..<x] @ [x..<b]" by simp
  then show ?thesis using assms(2) by (simp add: upt_conv_Cons)
qed

lemma takeWhile_upt:
  assumes "a \<le> x" "x < b"
  shows "takeWhile (\<lambda>y. y \<noteq> x) ([a..<b] @ ys) = [a..<x]"
proof -
  have "[a..<b] = [a..<x] @ x # [Suc x..<b]"
    using assms by (rule upt_split)
  then have "takeWhile (\<lambda>y. y \<noteq> x) ([a..<b] @ ys) =
             takeWhile (\<lambda>y. y \<noteq> x) ([a..<x] @ (x # [Suc x..<b] @ ys))" by simp
  also have "\<dots> = [a..<x] @ takeWhile (\<lambda>y. y \<noteq> x) (x # [Suc x..<b] @ ys)"
    by (rule takeWhile_append2) simp
  finally show ?thesis by simp
qed

lemma column_index_plain:
  assumes bm: "blockMap (gid2host g) n" and nv: "numVirtualHosts g = length (gid2host g)"
    and one: "numVirtualHosts g = numHosts g" and gid: "gid < n" and small: "n < 2 ^ 64"
  shows "getColumnIndex g gid = spec_columnIndex g gid mod 2 ^ 32"
proof -
  let ?r = "gid2host g"
  let ?sz = "\<lambda>b. snd (?r ! b) - fst (?r ! b)"
  from blockMap_covers [OF bm gid] obtain v where
    v: "v < length ?r" "fst (?r ! v) \<le> gid" "gid < snd (?r ! v)" by blast
  have host: "getHostID g gid = v" using bm nv v by (rule getHostID_range)
  have block: "getBlockID g gid = v" using host v(1) nv one by (simp add: getBlockID_def)
  define h where "h = getColumnHostIDOfBlock g v"
  let ?col = "\<lambda>b. getColumnHostIDOfBlock g b = h"
  have below: "\<forall>b\<in>set [0..<v]. fst (?r ! b) \<le> snd (?r ! b) \<and> snd (?r ! b) \<le> gid"
  proof
    fix b assume "b \<in> set [0..<v]"
    then have b: "b < v" by simp
    then have "b < length ?r" using v(1) by simp
    with bm have "fst (?r ! b) \<le> snd (?r ! b)" by (rule blockMap_le)
    moreover have "snd (?r ! b) \<le> fst (?r ! v)" using bm b v(1) by (rule blockMap_mono)
    ultimately show "fst (?r ! b) \<le> snd (?r ! b) \<and> snd (?r ! b) \<le> gid" using v(2) by simp
  qed
  have g64: "gid < 2 ^ 64" using gid small by simp
  have "getColumnIndex g gid = columnIndexLoop g gid h ([0..<v] @ [v]) 0"
    by (simp add: getColumnIndex_def block h_def)
  also have "\<dots> = (0 + sum_list (map ?sz (filter ?col [0..<v])) + (gid - fst (?r ! v))) mod 2 ^ 32"
    using g64 _ v(2,3) below by (rule columnIndexLoop_below) (simp add: h_def)
  finally have code: "getColumnIndex g gid =
      (sum_list (map ?sz (filter ?col [0..<v])) + (gid - fst (?r ! v))) mod 2 ^ 32" by simp
  have split: "[0..<length ?r] = [0..<v] @ v # [Suc v..<length ?r]"
    using _ v(1) by (rule upt_split) simp
  let ?rng = "\<lambda>b. [fst (?r ! b)..<snd (?r ! b)]"
  let ?pre = "concat (map ?rng (filter ?col [0..<v]))"
  let ?post = "concat (map ?rng (filter ?col [Suc v..<length ?r]))"
  have cc: "columnConcat g h = ?pre @ ?rng v @ ?post"
    by (simp add: columnConcat_def nv split h_def)
  have pre: "\<forall>x\<in>set ?pre. x \<noteq> gid"
  proof
    fix x assume "x \<in> set ?pre"
    then obtain b where "b \<in> set [0..<v]" "x < snd (?r ! b)" by auto
    with below have "x < gid" by fastforce
    then show "x \<noteq> gid" by simp
  qed
  have "takeWhile (\<lambda>x. x \<noteq> gid) (?pre @ (?rng v @ ?post)) =
        ?pre @ takeWhile (\<lambda>x. x \<noteq> gid) (?rng v @ ?post)"
    by (rule takeWhile_append2) (use pre in blast)
  then have "takeWhile (\<lambda>x. x \<noteq> gid) (columnConcat g h) =
        ?pre @ takeWhile (\<lambda>x. x \<noteq> gid) (?rng v @ ?post)"
    by (simp only: cc)
  also have "takeWhile (\<lambda>x. x \<noteq> gid) (?rng v @ ?post) = [fst (?r ! v)..<gid]"
    using v(2,3) by (rule takeWhile_upt)
  finally have "length (takeWhile (\<lambda>x. x \<noteq> gid) (columnConcat g h)) =
      length ?pre + (gid - fst (?r ! v))" by simp
  moreover have "length ?pre = sum_list (map ?sz (filter ?col [0..<v]))"
    by (simp add: length_concat comp_def)
  moreover have "getColumnHostID g gid = h" by (simp add: getColumnHostID_def block h_def)
  ultimately have "spec_columnIndex g gid =
      sum_list (map ?sz (filter ?col [0..<v])) + (gid - fst (?r ! v))"
    by (simp add: spec_columnIndex_def)
  with code show ?thesis by simp
qed

subsection \<open>The column index under a decompose factor\<close>

text \<open>
  Claim C8, at one host with decompose factor two whose virtual hosts own the ids 0, 1
  and 2, 3. All four ids are in column 0, and node 3 is at offset 3 of the concatenation
  of the two ranges; \<open>getColumnIndex\<close> stops at the block of the id, which is the virtual
  host modulo \<open>numHosts\<close>, and returns 2, the index of node 2.
\<close>

theorem column_index_decomposed:
  "getColumnIndex (gridOf decomposedHost) 3 = 2 \<and>
   getColumnIndex (gridOf decomposedHost) 2 = 2 \<and>
   columnConcat (gridOf decomposedHost) (getColumnHostID (gridOf decomposedHost) 3) = [0, 1, 2, 3] \<and>
   spec_columnIndex (gridOf decomposedHost) 3 = 3"
  by (simp add: gridOf_def decomposedHost_def eval_grid eval_block eval_list
      spec_columnIndex_def columnConcat_def)

subsection \<open>The second pass under checkerboard mode with a decompose factor\<close>

text \<open>
  Claim C1, at four hosts in checkerboard mode with decompose factor two, eight virtual
  hosts of one node each and the single edge from node 0 to node 6. The edge belongs to
  host 0, which reads it and is its own column peer. The first pass of host 0 completes
  without laying out node 6, so its second pass fails at \<open>G2L\<close> in \<open>loadEdgesFromFile\<close>
  and the host constructs no edge: a release build fails in \<open>unordered_map::at\<close>, a
  debug build in the assertion of \<open>G2L\<close>.
\<close>

theorem blocked_decomposed_edge_lost:
  "(0, 6) \<in> set (globalEdges blockedFile) \<and>
   edgeHost (gridOf (blockedHost True 0)) (0, 6) = 0 \<and>
   \<not> isl (firstPass (blockedHost True 0) blockedFile) \<and>
   localPass (blockedHost True 0) blockedFile = Inl KeyNotFound \<and>
   summary (constructDistGraph (blockedHost True 0) blockedFile) = Inl KeyNotFound \<and>
   summary (constructDistGraph (blockedHost False 0) blockedFile) = Inl AssertionFailure \<and>
   constructedEdges (blockedHost True 0) blockedFile 0 = None"
  by (simp add: summary_def constructedEdges_def globalEdges_def edgeHost_def gridOf_def
      blockedHost_def blockedFile_def eval_grid eval_block eval_inspect eval_exchange
      eval_layout eval_list eval_edges)

subsection \<open>The second pass without a decompose factor\<close>

text \<open>
  The complete directed graph on three nodes on a grid of two by two hosts, with and
  without checkerboard mode: every host completes, every edge is constructed by the
  host of the grid row of the owner of its source and of the column peer of its
  destination, and the hosts together hold the edges of the graph file.
\<close>

lemma k3_cartesian:
  "map (constructedEdges (k3Host False 0) k3File) [0, 1, 2, 3] =
     [Some [(0, 2), (1, 0), (1, 2)], Some [(0, 1)], Some [(2, 0)], Some [(2, 1)]]"
  by (simp add: eval_run k3Host_def k3File_def eval_grid eval_block eval_inspect eval_exchange
      eval_layout eval_list eval_edges)

lemma k3_checkerboard:
  "map (constructedEdges (k3Host True 0) k3File) [0, 1, 2, 3] =
     [Some [(0, 1), (1, 0)], Some [(1, 2), (0, 2)], Some [(2, 0), (2, 1)], Some []]"
  by (simp add: eval_run k3Host_def k3File_def eval_grid eval_block eval_inspect eval_exchange
      eval_layout eval_list eval_edges)

lemma k3_hosts:
  "map (edgeHost (gridOf (k3Host False 0))) (globalEdges k3File) = [1, 0, 0, 0, 2, 3] \<and>
   map (edgeHost (gridOf (k3Host True 0))) (globalEdges k3File) = [0, 1, 0, 1, 2, 2]"
  by (simp add: eval_run k3Host_def k3File_def eval_grid eval_block eval_list)

lemma k3_coverage:
  "mset (concat (map (\<lambda>x. the (constructedEdges (k3Host colBlocked 0) k3File x)) [0, 1, 2, 3])) =
   mset (globalEdges k3File)"
proof (cases colBlocked)
  case True
  have "mset (concat (map the (map (constructedEdges (k3Host True 0) k3File) [0, 1, 2, 3]))) =
        mset (globalEdges k3File)"
    by (simp only: k3_checkerboard) (simp add: globalEdges_def k3File_def eval_list numeral_2_eq_2)
  with True show ?thesis by (simp add: comp_def)
next
  case False
  have "mset (concat (map the (map (constructedEdges (k3Host False 0) k3File) [0, 1, 2, 3]))) =
        mset (globalEdges k3File)"
    by (simp only: k3_cartesian) (simp add: globalEdges_def k3File_def eval_list numeral_2_eq_2)
  with False show ?thesis by (simp add: comp_def)
qed
subsection \<open>The dummy outgoing case outside checkerboard mode\<close>

text \<open>
  The branch of the case itself: outside checkerboard mode a debug build fails its
  assertion there, and a release build, where the assertion is compiled out, counts a
  warning and creates the node. The branch is never taken. Outside checkerboard mode the
  column of a block is the block modulo the columns, and the sources of the loop over
  the grid row are those of the hosts of the row: the only one of them in the column
  that the test of the case asks for is this host itself, which the loop skips. So the
  column test of the case fails for every source the loop visits, and the loops of the
  layout count no warning and no dummy outgoing node.
\<close>

lemma dummyOutgoing_plain:
  "\<not> columnBlocked g \<Longrightarrow>
   dummyOutgoing g src st =
     (if ndebug g
      then createNode g src ((fst st)\<lparr>warnings := warnings (fst st) + 1\<rparr>, snd st)
      else Inl AssertionFailure)"
  by (simp add: dummyOutgoing_def)
















end
